theory Spec2Isabelle
  imports Complex_Main "HOL-Library.Word"
begin

section \<open>Data model of \<open>lib/mcscf/fci_rdm.c\<close>\<close>

text \<open>
  Conventions of the embedding.
  \<^item> A C \<open>double\<close> is a \<open>real\<close>: rounding, infinities and NaN are not modelled. The
    inputs that reach \<open>csum = CSUMTHR\<close> below use the coefficient \<open>1e-14\<close>; the double
    nearest to \<open>1e-14\<close>, squared and rounded, is the double nearest to \<open>1e-28\<close>, so the
    IEEE computation takes the same branch as the real one there.
  \<^item> A C \<open>int\<close> holding a size, a count or a loop index is a \<open>nat\<close>; the entries of the
    raw link table (\<open>int *link_index\<close>) are 32-bit words read with \<open>sint\<close>.
  \<^item> A read-only pointer into an array is a pair of the array and an offset
    (\<open>ket + strb_id\<close> is \<open>ptr_at ket strb_id\<close>); an array that a function writes is a
    list that the function returns updated.
  \<^item> An access outside an array is undefined behaviour in C. The model does not
    define it either: \<open>xs ! i\<close> beyond the length is an unspecified value, and a write
    beyond the length is dropped. The theorems that need in-range accesses state the
    sizes as hypotheses.
  \<^item> \<open>malloc\<close> returns a block of unspecified contents (\<open>uninit\<close>).
  \<^item> \<open>char\<close> is signed (as on x86); \<open>EXTRACT_SIGN\<close> is read with \<open>sint\<close>.
\<close>

type_synonym double = real

type_synonym c_int = "32 word"

type_synonym 'a ptr = "'a list \<times> nat"

definition ptr_at :: "'a list \<Rightarrow> nat \<Rightarrow> 'a ptr" where
  "ptr_at xs n = (xs, n)"

definition ptr_add :: "'a ptr \<Rightarrow> nat \<Rightarrow> 'a ptr" where
  "ptr_add p n = (fst p, snd p + n)"

definition ptr_get :: "'a ptr \<Rightarrow> nat \<Rightarrow> 'a" where
  "ptr_get p k = fst p ! (snd p + k)"

definition uninit :: "'a" where
  "uninit = undefined"

definition malloc :: "nat \<Rightarrow> 'a list" where
  "malloc n = replicate n uninit"

text \<open>\<open>memset(p + off, 0, sizeof(double) * n)\<close> on an array of doubles.\<close>

definition memset0 :: "double list \<Rightarrow> nat \<Rightarrow> nat \<Rightarrow> double list" where
  "memset0 xs off n = map (\<lambda>k. if off \<le> k \<and> k < off + n then 0 else xs ! k) [0..<length xs]"

definition CSUMTHR :: double where
  "CSUMTHR = 1 / 10 ^ 28"

definition BUFBASE :: nat where
  "BUFBASE = 320"

definition SQRT2 :: double where
  "SQRT2 = 1.4142135623730950488"

text \<open>The struct \<open>_LinkT\<close> (the padding byte carries no data) and its access macros.\<close>

record LinkT =
  link_addr :: "32 word"
  link_a :: "8 word"
  link_i :: "8 word"
  link_sign :: "8 word"

definition EXTRACT_I :: "LinkT \<Rightarrow> 8 word" where
  "EXTRACT_I I = link_i I"

definition EXTRACT_A :: "LinkT \<Rightarrow> 8 word" where
  "EXTRACT_A I = link_a I"

definition EXTRACT_SIGN :: "LinkT \<Rightarrow> 8 word" where
  "EXTRACT_SIGN I = link_sign I"

definition EXTRACT_ADDR :: "LinkT \<Rightarrow> 32 word" where
  "EXTRACT_ADDR I = link_addr I"

section \<open>Link table compactor\<close>

text \<open>
  \<open>compress_link\<close>: the pointers \<open>clink\<close> and \<open>link_index\<close> advance by \<open>nlink\<close> and
  \<open>nlink * 4\<close> per string, so in pass \<open>k\<close> they stand at \<open>k * nlink\<close> and \<open>k * (nlink * 4)\<close>.
  The assignments to the \<open>unsigned char\<close>, \<open>char\<close> and \<open>unsigned int\<close> fields convert
  the \<open>int\<close> by keeping its low bits (\<open>ucast\<close>).
\<close>

definition compress_link :: "LinkT list \<Rightarrow> c_int list \<Rightarrow> nat \<Rightarrow> nat \<Rightarrow> nat \<Rightarrow> LinkT list" where
  "compress_link clink link_index norb nstr nlink =
     fold (\<lambda>k clink.
       fold (\<lambda>j clink.
         (let a = link_index ! (k * (nlink * 4) + (j * 4 + 0));
              i = link_index ! (k * (nlink * 4) + (j * 4 + 1));
              str1 = link_index ! (k * (nlink * 4) + (j * 4 + 2));
              sign = link_index ! (k * (nlink * 4) + (j * 4 + 3))
          in clink[k * nlink + j :=
               \<lparr>link_addr = ucast str1, link_a = ucast a, link_i = ucast i,
                link_sign = ucast sign\<rparr>]))
         [0..<nlink] clink)
       [0..<nstr] clink"

section \<open>Single-excitation contractors\<close>

definition rdm2_a_t1 :: "double ptr \<Rightarrow> double list \<Rightarrow> nat \<Rightarrow> nat \<Rightarrow> nat \<Rightarrow> nat \<Rightarrow> nat
    \<Rightarrow> LinkT ptr \<Rightarrow> double list \<times> double" where
  "rdm2_a_t1 ci0 t1 fillcnt stra_id norb nstrb nlinka clink_indexa =
     (let nnorb = norb * norb;
          tab = ptr_add clink_indexa (stra_id * nlinka)
      in fold (\<lambda>j (t1, csum).
           (let i = unat (EXTRACT_I (ptr_get tab j));
                a = unat (EXTRACT_A (ptr_get tab j));
                str1 = unat (EXTRACT_ADDR (ptr_get tab j));
                sign = sint (EXTRACT_SIGN (ptr_get tab j));
                pci = ptr_add ci0 (str1 * nstrb);
                pt1 = i * norb + a
            in if sign > 0
               then fold (\<lambda>k (t1, csum).
                      (t1[pt1 + k * nnorb := t1 ! (pt1 + k * nnorb) + ptr_get pci k],
                       csum + ptr_get pci k * ptr_get pci k))
                    [0..<fillcnt] (t1, csum)
               else fold (\<lambda>k (t1, csum).
                      (t1[pt1 + k * nnorb := t1 ! (pt1 + k * nnorb) - ptr_get pci k],
                       csum + ptr_get pci k * ptr_get pci k))
                    [0..<fillcnt] (t1, csum)))
         [0..<nlinka] (t1, 0))"

text \<open>
  \<open>rdm2_0b_t1\<close>: \<open>t1\<close> and \<open>tab\<close> advance by \<open>nnorb\<close> and \<open>nlinkb\<close> per string, so in pass
  \<open>str0\<close> they stand at \<open>str0 * nnorb\<close> and \<open>str0 * nlinkb\<close>.
\<close>

definition rdm2_0b_t1 :: "double ptr \<Rightarrow> double list \<Rightarrow> nat \<Rightarrow> nat \<Rightarrow> nat \<Rightarrow> nat \<Rightarrow> nat
    \<Rightarrow> LinkT ptr \<Rightarrow> double list \<times> double" where
  "rdm2_0b_t1 ci0 t1 fillcnt stra_id norb nstrb nlinkb clink_indexb =
     (let nnorb = norb * norb;
          pci = ptr_add ci0 (stra_id * nstrb)
      in fold (\<lambda>str0 (t1, csum).
           (let t1 = memset0 t1 (str0 * nnorb) nnorb;
                tab = ptr_add clink_indexb (str0 * nlinkb)
            in fold (\<lambda>j (t1, csum).
                 (let i = unat (EXTRACT_I (ptr_get tab j));
                      a = unat (EXTRACT_A (ptr_get tab j));
                      str1 = unat (EXTRACT_ADDR (ptr_get tab j));
                      sign = sint (EXTRACT_SIGN (ptr_get tab j))
                  in (t1[str0 * nnorb + (i * norb + a) :=
                        t1 ! (str0 * nnorb + (i * norb + a)) + of_int sign * ptr_get pci str1],
                      csum + ptr_get pci str1 * ptr_get pci str1)))
               [0..<nlinkb] (t1, csum)))
         [0..<fillcnt] (t1, 0))"

text \<open>
  \<open>kern_ms0_ab\<close>: the two calls are the operands of one \<open>+\<close>; the beta contractor,
  which clears \<open>t1\<close>, is taken to run first, as the source is written.
\<close>

definition kern_ms0_ab :: "double ptr \<Rightarrow> double list \<Rightarrow> nat \<Rightarrow> nat \<Rightarrow> nat \<Rightarrow> nat \<Rightarrow> nat \<Rightarrow> nat
    \<Rightarrow> LinkT ptr \<Rightarrow> double list \<times> double" where
  "kern_ms0_ab ci0 t1 fillcnt stra_id strb_id norb na nlink clink_index =
     (let (t1, csum0) = rdm2_0b_t1 ci0 t1 fillcnt stra_id norb na nlink
                          (ptr_add clink_index (strb_id * nlink));
          (t1, csum1) = rdm2_a_t1 (ptr_add ci0 strb_id) t1 fillcnt stra_id norb na nlink
                          clink_index
      in (t1, csum0 + csum1))"

section \<open>The BLAS routines the kernels call\<close>

text \<open>
  The Fortran BLAS is an external library; these definitions follow the reference
  documentation, for the argument patterns the source uses (column-major storage, unit
  increments, \<open>trans = 'N'\<close> for \<open>dgemv\<close>, \<open>uplo = 'U'\<close> and \<open>trans = 'N'\<close> for \<open>dsyrk\<close>,
  \<open>transa = 'N'\<close> and \<open>transb = 'T'\<close> for \<open>dgemm\<close>).
  \<^item> \<open>dgemv\<close>: \<open>y(p) := alpha * (\<Sum>k<n. A(p,k) * x(k)) + beta * y(p)\<close> for \<open>p < m\<close>.
  \<^item> \<open>dsyrk\<close>: \<open>C(p,q) := alpha * (\<Sum>l<k. A(p,l) * A(q,l)) + beta * C(p,q)\<close> for
    \<open>p \<le> q < n\<close>; the other entries of \<open>C\<close> are not referenced.
  \<^item> \<open>dgemm\<close>: \<open>C(p,q) := alpha * (\<Sum>l<k. A(p,l) * B(q,l)) + beta * C(p,q)\<close> for
    \<open>p < m\<close>, \<open>q < n\<close>.
  Column-major: \<open>A(p,l)\<close> is \<open>A[l * lda + p]\<close> and \<open>C(p,q)\<close> is \<open>C[q * ldc + p]\<close>.
\<close>

definition dgemv_N :: "nat \<Rightarrow> nat \<Rightarrow> double \<Rightarrow> double list \<Rightarrow> nat \<Rightarrow> double ptr \<Rightarrow> double
    \<Rightarrow> double list \<Rightarrow> double list" where
  "dgemv_N m n alpha A lda x beta y =
     map (\<lambda>p. if p < m
               then alpha * (\<Sum>k\<leftarrow>[0..<n]. A ! (k * lda + p) * ptr_get x k) + beta * y ! p
               else y ! p)
       [0..<length y]"

definition dsyrk_UN :: "nat \<Rightarrow> nat \<Rightarrow> double \<Rightarrow> double list \<Rightarrow> nat \<Rightarrow> double
    \<Rightarrow> double list \<Rightarrow> nat \<Rightarrow> double list" where
  "dsyrk_UN n k alpha A lda beta C ldc =
     map (\<lambda>idx. if idx mod ldc \<le> idx div ldc \<and> idx div ldc < n
                 then alpha * (\<Sum>l\<leftarrow>[0..<k]. A ! (l * lda + idx mod ldc) * A ! (l * lda + idx div ldc))
                      + beta * C ! idx
                 else C ! idx)
       [0..<length C]"

definition dgemm_NT :: "nat \<Rightarrow> nat \<Rightarrow> nat \<Rightarrow> double \<Rightarrow> double list \<Rightarrow> nat \<Rightarrow> double list \<Rightarrow> nat
    \<Rightarrow> double \<Rightarrow> double list \<Rightarrow> nat \<Rightarrow> double list" where
  "dgemm_NT m n k alpha A lda B ldb beta C ldc =
     map (\<lambda>idx. if idx mod ldc < m \<and> idx div ldc < n
                 then alpha * (\<Sum>l\<leftarrow>[0..<k]. A ! (l * lda + idx mod ldc) * B ! (l * ldb + idx div ldc))
                      + beta * C ! idx
                 else C ! idx)
       [0..<length C]"

section \<open>Density accumulation kernels\<close>

text \<open>
  Every kernel has the signature the driver calls through its function pointer:
  the accumulators \<open>rdm1\<close> and \<open>rdm2\<close> come first and are returned updated.
\<close>

type_synonym dm12kernel = "double list \<Rightarrow> double list \<Rightarrow> double list \<Rightarrow> double list
    \<Rightarrow> nat \<Rightarrow> nat \<Rightarrow> nat \<Rightarrow> nat \<Rightarrow> nat \<Rightarrow> nat \<Rightarrow> nat \<Rightarrow> nat \<Rightarrow> LinkT list \<Rightarrow> LinkT list
    \<Rightarrow> double list \<times> double list"

definition FCIrdm12kern_ms0 :: dm12kernel where
  "FCIrdm12kern_ms0 rdm1 rdm2 bra ket fillcnt stra_id strb_id norb na nb nlinka nlinkb
       clink_indexa clink_indexb =
     (let nnorb = norb * norb;
          buf = malloc (nnorb * fillcnt);
          (buf, csum) = kern_ms0_ab (ptr_at ket 0) buf fillcnt stra_id strb_id
                          norb na nlinka (ptr_at clink_indexa 0)
      in if csum > CSUMTHR
         then (dgemv_N nnorb fillcnt 1 buf nnorb (ptr_at ket (stra_id * na + strb_id)) 1 rdm1,
               dsyrk_UN nnorb fillcnt 1 buf nnorb 1 rdm2 nnorb)
         else (rdm1, rdm2))"

text \<open>
  \<open>FCIrdm12kern_spin0\<close>: the first component of \<open>spin0_t1\<close> is the pair
  \<open>(fill0, fill1)\<close> the branch chooses; \<open>spin0_scale\<close> is the loop
  \<open>for (i = fill0*nnorb; i < fill1*nnorb; i++) buf[i] *= SQRT2\<close>.
\<close>

definition spin0_t1 :: "double list \<Rightarrow> nat \<Rightarrow> nat \<Rightarrow> nat \<Rightarrow> nat \<Rightarrow> nat \<Rightarrow> nat \<Rightarrow> LinkT list
    \<Rightarrow> (nat \<times> nat) \<times> double list \<times> double" where
  "spin0_t1 ket fillcnt stra_id strb_id norb na nlinka clink_indexa =
     (let nnorb = norb * norb;
          buf = malloc (nnorb * na)
      in if strb_id + fillcnt < stra_id
         then (let fill0 = fillcnt;
                   fill1 = fillcnt;
                   (buf, csum0) = rdm2_0b_t1 (ptr_at ket 0) buf fill0 stra_id norb na nlinka
                                    (ptr_at clink_indexa (strb_id * nlinka));
                   (buf, csum1) = rdm2_a_t1 (ptr_at ket strb_id) buf fill1 stra_id norb na nlinka
                                    (ptr_at clink_indexa 0)
               in ((fill0, fill1), buf, csum0 + csum1))
         else (let fill0 = stra_id - strb_id;
                   fill1 = stra_id - strb_id + 1;
                   buf = memset0 buf (fill0 * nnorb) nnorb;
                   (buf, csum0) = rdm2_0b_t1 (ptr_at ket 0) buf fill0 stra_id norb na nlinka
                                    (ptr_at clink_indexa (strb_id * nlinka));
                   (buf, csum1) = rdm2_a_t1 (ptr_at ket strb_id) buf fill1 stra_id norb na nlinka
                                    (ptr_at clink_indexa 0)
               in ((fill0, fill1), buf, csum0 + csum1)))"

definition spin0_scale :: "nat \<Rightarrow> nat \<Rightarrow> nat \<Rightarrow> double list \<Rightarrow> double list" where
  "spin0_scale nnorb fill0 fill1 buf =
     fold (\<lambda>i buf. buf[i := buf ! i * SQRT2]) [fill0 * nnorb..<fill1 * nnorb] buf"

definition FCIrdm12kern_spin0 :: dm12kernel where
  "FCIrdm12kern_spin0 rdm1 rdm2 bra ket fillcnt stra_id strb_id norb na nb nlinka nlinkb
       clink_indexa clink_indexb =
     (if stra_id < strb_id then (rdm1, rdm2)
      else (let nnorb = norb * norb;
                ((fill0, fill1), buf, csum) =
                   spin0_t1 ket fillcnt stra_id strb_id norb na nlinka clink_indexa
            in if csum > CSUMTHR
               then (let rdm1 = dgemv_N nnorb fill1 2 buf nnorb
                                  (ptr_at ket (stra_id * na + strb_id)) 1 rdm1;
                         buf = spin0_scale nnorb fill0 fill1 buf
                     in (rdm1, dsyrk_UN nnorb fill1 2 buf nnorb 1 rdm2 nnorb))
               else (rdm1, rdm2)))"

definition FCItdm12kern_ms0 :: dm12kernel where
  "FCItdm12kern_ms0 tdm1 tdm2 bra ket fillcnt stra_id strb_id norb na nb nlinka nlinkb
       clink_indexa clink_indexb =
     (let nnorb = norb * norb;
          buf0 = malloc (nnorb * fillcnt);
          buf1 = malloc (nnorb * fillcnt);
          (buf1, csum) = kern_ms0_ab (ptr_at bra 0) buf1 fillcnt stra_id strb_id
                           norb na nlinka (ptr_at clink_indexa 0)
      in if csum < CSUMTHR then (tdm1, tdm2)
         else (let (buf0, csum) = kern_ms0_ab (ptr_at ket 0) buf0 fillcnt stra_id strb_id
                                    norb na nlinka (ptr_at clink_indexa 0)
               in if csum < CSUMTHR then (tdm1, tdm2)
                  else (dgemv_N nnorb fillcnt 1 buf0 nnorb
                          (ptr_at bra (stra_id * na + strb_id)) 1 tdm1,
                        dgemm_NT nnorb nnorb fillcnt 1 buf0 nnorb buf1 nnorb 1 tdm2 nnorb)))"

definition FCIrdm12kern_a :: dm12kernel where
  "FCIrdm12kern_a rdm1 rdm2 bra ket fillcnt stra_id strb_id norb na nb nlinka nlinkb
       clink_indexa clink_indexb =
     (let nnorb = norb * norb;
          buf = malloc (nnorb * fillcnt);
          buf = memset0 buf 0 (nnorb * fillcnt);
          (buf, csum) = rdm2_a_t1 (ptr_at ket strb_id) buf fillcnt stra_id
                          norb nb nlinka (ptr_at clink_indexa 0)
      in if csum > CSUMTHR
         then (dgemv_N nnorb fillcnt 1 buf nnorb (ptr_at ket (stra_id * nb + strb_id)) 1 rdm1,
               dsyrk_UN nnorb fillcnt 1 buf nnorb 1 rdm2 nnorb)
         else (rdm1, rdm2))"

definition FCIrdm12kern_b :: dm12kernel where
  "FCIrdm12kern_b rdm1 rdm2 bra ket fillcnt stra_id strb_id norb na nb nlinka nlinkb
       clink_indexa clink_indexb =
     (let nnorb = norb * norb;
          buf = malloc (nnorb * fillcnt);
          (buf, csum) = rdm2_0b_t1 (ptr_at ket 0) buf fillcnt stra_id
                          norb nb nlinkb (ptr_at clink_indexb (strb_id * nlinkb))
      in if csum > CSUMTHR
         then (dgemv_N nnorb fillcnt 1 buf nnorb (ptr_at ket (stra_id * nb + strb_id)) 1 rdm1,
               dsyrk_UN nnorb fillcnt 1 buf nnorb 1 rdm2 nnorb)
         else (rdm1, rdm2))"

definition FCItdm12kern_a :: dm12kernel where
  "FCItdm12kern_a tdm1 tdm2 bra ket fillcnt stra_id strb_id norb na nb nlinka nlinkb
       clink_indexa clink_indexb =
     (let nnorb = norb * norb;
          buf0 = malloc (nnorb * fillcnt);
          buf1 = malloc (nnorb * fillcnt);
          buf1 = memset0 buf1 0 (nnorb * fillcnt);
          (buf1, csum) = rdm2_a_t1 (ptr_at bra strb_id) buf1 fillcnt stra_id
                           norb nb nlinka (ptr_at clink_indexa 0)
      in if csum < CSUMTHR then (tdm1, tdm2)
         else (let buf0 = memset0 buf0 0 (nnorb * fillcnt);
                   (buf0, csum) = rdm2_a_t1 (ptr_at ket strb_id) buf0 fillcnt stra_id
                                    norb nb nlinka (ptr_at clink_indexa 0)
               in if csum < CSUMTHR then (tdm1, tdm2)
                  else (dgemv_N nnorb fillcnt 1 buf0 nnorb
                          (ptr_at bra (stra_id * nb + strb_id)) 1 tdm1,
                        dgemm_NT nnorb nnorb fillcnt 1 buf0 nnorb buf1 nnorb 1 tdm2 nnorb)))"

definition FCItdm12kern_b :: dm12kernel where
  "FCItdm12kern_b tdm1 tdm2 bra ket fillcnt stra_id strb_id norb na nb nlinka nlinkb
       clink_indexa clink_indexb =
     (let nnorb = norb * norb;
          buf0 = malloc (nnorb * fillcnt);
          buf1 = malloc (nnorb * fillcnt);
          (buf1, csum) = rdm2_0b_t1 (ptr_at bra 0) buf1 fillcnt stra_id
                           norb nb nlinkb (ptr_at clink_indexb (strb_id * nlinkb))
      in if csum < CSUMTHR then (tdm1, tdm2)
         else (let (buf0, csum) = rdm2_0b_t1 (ptr_at ket 0) buf0 fillcnt stra_id
                                    norb nb nlinkb (ptr_at clink_indexb (strb_id * nlinkb))
               in if csum < CSUMTHR then (tdm1, tdm2)
                  else (dgemv_N nnorb fillcnt 1 buf0 nnorb
                          (ptr_at bra (stra_id * nb + strb_id)) 1 tdm1,
                        dgemm_NT nnorb nnorb fillcnt 1 buf0 nnorb buf1 nnorb 1 tdm2 nnorb)))"

definition FCItdm12kern_ab :: dm12kernel where
  "FCItdm12kern_ab tdm1 tdm2 bra ket fillcnt stra_id strb_id norb na nb nlinka nlinkb
       clink_indexa clink_indexb =
     (let nnorb = norb * norb;
          bufb = malloc (nnorb * fillcnt);
          bufa = malloc (nnorb * fillcnt);
          bufa = memset0 bufa 0 (nnorb * fillcnt);
          (bufa, csum) = rdm2_a_t1 (ptr_at bra strb_id) bufa fillcnt stra_id
                           norb nb nlinka (ptr_at clink_indexa 0)
      in if csum < CSUMTHR then (tdm1, tdm2)
         else (let (bufb, csum) = rdm2_0b_t1 (ptr_at ket 0) bufb fillcnt stra_id
                                    norb nb nlinkb (ptr_at clink_indexb (strb_id * nlinkb))
               in if csum < CSUMTHR then (tdm1, tdm2)
                  else (tdm1,
                        dgemm_NT nnorb nnorb fillcnt 1 bufb nnorb bufa nnorb 1 tdm2 nnorb)))"

section \<open>Parallel driver\<close>

text \<open>
  The loop nest \<open>for (i = 0; i < n; i++) for (j = 0; j < i; j++) m[j*n+i] = m[i*n+j]\<close>,
  which closes \<open>FCIrdm12_drv\<close> (on \<open>rdm1\<close> with \<open>norb\<close> and on \<open>rdm2\<close> with \<open>nnorb\<close>) and
  the direct builders \<open>FCImake_rdm1a\<close> and \<open>FCImake_rdm1b\<close>.
\<close>

definition symmetrize_loop :: "nat \<Rightarrow> double list \<Rightarrow> double list" where
  "symmetrize_loop n m =
     fold (\<lambda>i m. fold (\<lambda>j m. m[j * n + i := m ! (i * n + j)]) [0..<i] m) [0..<n] m"

text \<open>The reduction \<open>for (i = 0; i < n; i++) rdm[i] += pdm[i]\<close> of the critical section.\<close>

definition reduce_into :: "nat \<Rightarrow> double list \<Rightarrow> double list \<Rightarrow> double list" where
  "reduce_into n rdm pdm = fold (\<lambda>i rdm. rdm[i := rdm ! i + pdm ! i]) [0..<n] rdm"

text \<open>
  The block loop \<open>for (ib = 0; ib < nb; ib += bufbase)\<close> with \<open>bufbase = MIN(BUFBASE, nb)\<close>;
  \<open>body blen ib\<close> is the work-shared loop over \<open>strk\<close>. The parallel region is modelled
  with one worker, which runs every iteration in order on its private \<open>pdm1\<close>, \<open>pdm2\<close>.
\<close>

function drv_blocks :: "(nat \<Rightarrow> nat \<Rightarrow> double list \<times> double list \<Rightarrow> double list \<times> double list)
    \<Rightarrow> nat \<Rightarrow> nat \<Rightarrow> double list \<times> double list \<Rightarrow> double list \<times> double list" where
  "drv_blocks body nb ib pdm =
     (if ib < nb
      then drv_blocks body nb (ib + min BUFBASE nb)
             (body (min (min BUFBASE nb) (nb - ib)) ib pdm)
      else pdm)"
  by pat_completeness auto
termination
  by (relation "measure (\<lambda>(body, nb, ib, pdm). nb - ib)") (auto simp: BUFBASE_def)

declare drv_blocks.simps [simp del]

text \<open>
  \<open>FCIrdm12_drv\<close>: the output buffers \<open>rdm1\<close> (\<open>nnorb\<close> doubles) and \<open>rdm2\<close>
  (\<open>nnorb * nnorb\<close> doubles) are cleared on entry, so the model returns them instead of
  taking them.
\<close>

definition FCIrdm12_drv :: "dm12kernel \<Rightarrow> double list \<Rightarrow> double list
    \<Rightarrow> nat \<Rightarrow> nat \<Rightarrow> nat \<Rightarrow> nat \<Rightarrow> nat \<Rightarrow> c_int list \<Rightarrow> c_int list \<Rightarrow> int
    \<Rightarrow> double list \<times> double list" where
  "FCIrdm12_drv dm12kernel bra ket norb na nb nlinka nlinkb link_indexa link_indexb symm =
     (let nnorb = norb * norb;
          rdm1 = replicate nnorb 0;
          rdm2 = replicate (nnorb * nnorb) 0;
          clinka = compress_link (malloc (nlinka * na)) link_indexa norb na nlinka;
          clinkb = compress_link (malloc (nlinkb * nb)) link_indexb norb nb nlinkb;
          pdm1 = replicate nnorb 0;
          pdm2 = replicate (nnorb * nnorb) 0;
          (pdm1, pdm2) =
             drv_blocks (\<lambda>blen ib.
                 fold (\<lambda>strk (pdm1, pdm2).
                    dm12kernel pdm1 pdm2 bra ket blen strk ib norb na nb nlinka nlinkb
                      clinka clinkb)
                  [0..<na])
               nb 0 (pdm1, pdm2);
          rdm1 = reduce_into nnorb rdm1 pdm1;
          rdm2 = reduce_into (nnorb * nnorb) rdm2 pdm2
      in if symm \<noteq> 0
         then (symmetrize_loop norb rdm1, symmetrize_loop nnorb rdm2)
         else (rdm1, rdm2))"

definition FCImake_rdm12_ms0 :: "double list \<Rightarrow> double list \<Rightarrow> nat \<Rightarrow> nat \<Rightarrow> nat \<Rightarrow> c_int list
    \<Rightarrow> double list \<times> double list" where
  "FCImake_rdm12_ms0 bra ket norb na nlink link_index =
     FCIrdm12_drv FCIrdm12kern_ms0 ket ket norb na na nlink nlink link_index link_index 1"

definition FCImake_rdm12_spin0 :: "double list \<Rightarrow> double list \<Rightarrow> nat \<Rightarrow> nat \<Rightarrow> nat \<Rightarrow> c_int list
    \<Rightarrow> double list \<times> double list" where
  "FCImake_rdm12_spin0 bra ket norb na nlink link_index =
     FCIrdm12_drv FCIrdm12kern_spin0 ket ket norb na na nlink nlink link_index link_index 1"

definition FCItrans_rdm12_ms0 :: "double list \<Rightarrow> double list \<Rightarrow> nat \<Rightarrow> nat \<Rightarrow> nat \<Rightarrow> c_int list
    \<Rightarrow> double list \<times> double list" where
  "FCItrans_rdm12_ms0 bra ket norb na nlink link_index =
     FCIrdm12_drv FCItdm12kern_ms0 bra ket norb na na nlink nlink link_index link_index 0"

section \<open>Direct 1-RDM builders\<close>

definition FCImake_rdm1a :: "double list \<Rightarrow> double list \<Rightarrow> nat \<Rightarrow> nat \<Rightarrow> nat \<Rightarrow> nat \<Rightarrow> nat
    \<Rightarrow> c_int list \<Rightarrow> c_int list \<Rightarrow> double list" where
  "FCImake_rdm1a cibra ciket norb na nb nlinka nlinkb link_indexa link_indexb =
     (let ci0 = ptr_at ciket 0;
          clink = compress_link (malloc (nlinka * na)) link_indexa norb na nlinka;
          rdm1 = replicate (norb * norb) 0;
          rdm1 =
            fold (\<lambda>str0 rdm1.
              (let tab = ptr_at clink (str0 * nlinka);
                   pci0 = ptr_add ci0 (str0 * nb)
               in fold (\<lambda>j rdm1.
                    (let i = unat (EXTRACT_I (ptr_get tab j));
                         a = unat (EXTRACT_A (ptr_get tab j));
                         str1 = unat (EXTRACT_ADDR (ptr_get tab j));
                         sign = sint (EXTRACT_SIGN (ptr_get tab j));
                         pci1 = ptr_add ci0 (str1 * nb)
                     in if a \<ge> i
                        then (if sign > 0
                              then fold (\<lambda>k rdm1. rdm1[a * norb + i :=
                                       rdm1 ! (a * norb + i) + ptr_get pci0 k * ptr_get pci1 k])
                                     [0..<nb] rdm1
                              else fold (\<lambda>k rdm1. rdm1[a * norb + i :=
                                       rdm1 ! (a * norb + i) - ptr_get pci0 k * ptr_get pci1 k])
                                     [0..<nb] rdm1)
                        else rdm1))
                  [0..<nlinka] rdm1))
              [0..<na] rdm1
      in symmetrize_loop norb rdm1)"

definition FCImake_rdm1b :: "double list \<Rightarrow> double list \<Rightarrow> nat \<Rightarrow> nat \<Rightarrow> nat \<Rightarrow> nat \<Rightarrow> nat
    \<Rightarrow> c_int list \<Rightarrow> c_int list \<Rightarrow> double list" where
  "FCImake_rdm1b cibra ciket norb na nb nlinka nlinkb link_indexa link_indexb =
     (let ci0 = ptr_at ciket 0;
          clink = compress_link (malloc (nlinkb * nb)) link_indexb norb nb nlinkb;
          rdm1 = replicate (norb * norb) 0;
          rdm1 =
            fold (\<lambda>str0 rdm1.
              (let pci0 = ptr_add ci0 (str0 * nb)
               in fold (\<lambda>k rdm1.
                    (let tab = ptr_at clink (k * nlinkb);
                         tmp = ptr_get pci0 k
                     in fold (\<lambda>j rdm1.
                          (let i = unat (EXTRACT_I (ptr_get tab j));
                               a = unat (EXTRACT_A (ptr_get tab j));
                               str1 = unat (EXTRACT_ADDR (ptr_get tab j));
                               sign = sint (EXTRACT_SIGN (ptr_get tab j))
                           in if a \<ge> i
                              then (if sign > 0
                                    then rdm1[a * norb + i :=
                                           rdm1 ! (a * norb + i) + ptr_get pci0 str1 * tmp]
                                    else rdm1[a * norb + i :=
                                           rdm1 ! (a * norb + i) - ptr_get pci0 str1 * tmp])
                              else rdm1))
                        [0..<nlinkb] rdm1))
                  [0..<nb] rdm1))
              [0..<na] rdm1
      in symmetrize_loop norb rdm1)"

section \<open>Auxiliary notions for the statements\<close>

text \<open>
  A kernel writes into the accumulators it is given and cannot resize them; in the model,
  where arrays are lists, this is a property of the kernel: \<open>keeps_sizes\<close>.
\<close>

definition keeps_sizes :: "dm12kernel \<Rightarrow> bool" where
  "keeps_sizes K = (\<forall>rdm1 rdm2 bra ket fillcnt stra_id strb_id norb na nb nlinka nlinkb ca cb.
      length (fst (K rdm1 rdm2 bra ket fillcnt stra_id strb_id norb na nb nlinka nlinkb ca cb)) = length rdm1 \<and>
      length (snd (K rdm1 rdm2 bra ket fillcnt stra_id strb_id norb na nb nlinka nlinkb ca cb)) = length rdm2)"

text \<open>
  The link table of the two-orbital, one-electron-per-spin scenario: string 0 occupies
  orbital 0 and string 1 occupies orbital 1. Each string has the identity excitation with
  sign \<open>+1\<close> and the swap to the other string with sign \<open>-1\<close>; a quadruple is
  \<open>(a, i, destination, sign)\<close>.
\<close>

definition link_2orb :: "c_int list" where
  "link_2orb = [0, 0, 0, 1,   1, 0, 1, - 1,
                1, 1, 1, 1,   0, 1, 0, - 1]"

text \<open>
  The accumulated squared norm \<open>csum\<close> that each kernel compares with \<open>CSUMTHR\<close>, as the
  kernel computes it: from the combined contractor (ms0 kernels), from the spin0 branch,
  from the alpha contractor on a cleared buffer (\<open>a\<close> kernels) and from the beta contractor
  (\<open>b\<close> kernels).
\<close>

definition csum_ms0 :: "double list \<Rightarrow> nat \<Rightarrow> nat \<Rightarrow> nat \<Rightarrow> nat \<Rightarrow> nat \<Rightarrow> nat \<Rightarrow> LinkT list
    \<Rightarrow> double" where
  "csum_ms0 ci fillcnt stra_id strb_id norb na nlinka clink_indexa =
     snd (kern_ms0_ab (ptr_at ci 0) (malloc (norb * norb * fillcnt)) fillcnt stra_id strb_id
            norb na nlinka (ptr_at clink_indexa 0))"

definition csum_spin0 :: "double list \<Rightarrow> nat \<Rightarrow> nat \<Rightarrow> nat \<Rightarrow> nat \<Rightarrow> nat \<Rightarrow> nat \<Rightarrow> LinkT list
    \<Rightarrow> double" where
  "csum_spin0 ket fillcnt stra_id strb_id norb na nlinka clink_indexa =
     snd (snd (spin0_t1 ket fillcnt stra_id strb_id norb na nlinka clink_indexa))"

definition csum_a :: "double list \<Rightarrow> nat \<Rightarrow> nat \<Rightarrow> nat \<Rightarrow> nat \<Rightarrow> nat \<Rightarrow> nat \<Rightarrow> LinkT list
    \<Rightarrow> double" where
  "csum_a ci fillcnt stra_id strb_id norb nb nlinka clink_indexa =
     snd (rdm2_a_t1 (ptr_at ci strb_id)
            (memset0 (malloc (norb * norb * fillcnt)) 0 (norb * norb * fillcnt))
            fillcnt stra_id norb nb nlinka (ptr_at clink_indexa 0))"

definition csum_b :: "double list \<Rightarrow> nat \<Rightarrow> nat \<Rightarrow> nat \<Rightarrow> nat \<Rightarrow> nat \<Rightarrow> nat \<Rightarrow> LinkT list
    \<Rightarrow> double" where
  "csum_b ci fillcnt stra_id strb_id norb nb nlinkb clink_indexb =
     snd (rdm2_0b_t1 (ptr_at ci 0) (malloc (norb * norb * fillcnt)) fillcnt stra_id
            norb nb nlinkb (ptr_at clink_indexb (strb_id * nlinkb)))"

text \<open>A compacted table with the single record \<open>(a = 0, i = 0, destination 0, sign +1)\<close>.\<close>

definition clink_one :: "LinkT list" where
  "clink_one = [\<lparr>link_addr = 0, link_a = 0, link_i = 0, link_sign = 1\<rparr>]"

text \<open>The \<open>T1\<close> intermediate of the ms0 kernels, as \<open>kern_ms0_ab\<close> leaves it.\<close>

definition t1_ms0 :: "double list \<Rightarrow> nat \<Rightarrow> nat \<Rightarrow> nat \<Rightarrow> nat \<Rightarrow> nat \<Rightarrow> nat \<Rightarrow> LinkT list
    \<Rightarrow> double list" where
  "t1_ms0 ci fillcnt stra_id strb_id norb na nlinka clink_indexa =
     fst (kern_ms0_ab (ptr_at ci 0) (malloc (norb * norb * fillcnt)) fillcnt stra_id strb_id
            norb na nlinka (ptr_at clink_indexa 0))"

text \<open>
  No kernel call of an ms=0 driver run meets \<open>csum = CSUMTHR\<close> exactly: the driver calls
  the kernel for every \<open>strk < na\<close> at each block start \<open>ib\<close> (the multiples of
  \<open>MIN(BUFBASE, na)\<close> below \<open>na\<close>) with \<open>blen = MIN(bufbase, na - ib)\<close>.
\<close>

definition no_block_at_threshold :: "double list \<Rightarrow> nat \<Rightarrow> nat \<Rightarrow> nat \<Rightarrow> c_int list \<Rightarrow> bool" where
  "no_block_at_threshold ket norb na nlink link_index =
     list_all (\<lambda>ib.
        list_all (\<lambda>strk.
           csum_ms0 ket (min (min BUFBASE na) (na - ib)) strk ib norb na nlink
             (compress_link (malloc (nlink * na)) link_index norb na nlink) \<noteq> CSUMTHR)
          [0..<na])
       (filter (\<lambda>ib. ib mod min BUFBASE na = 0) [0..<na])"

text \<open>
  The relation between the private accumulators of a ground-state ms0 run (\<open>g\<close>) and of
  a transition ms0 run on the same state (\<open>t\<close>): equal \<open>pdm1\<close>, equal entries of \<open>pdm2\<close>
  in the triangle that \<open>dsyrk\<close> writes, and a symmetric transition \<open>pdm2\<close>.
\<close>

definition same_state_rel :: "nat \<Rightarrow> double list \<times> double list \<Rightarrow> double list \<times> double list \<Rightarrow> bool" where
  "same_state_rel nn g t =
     (length (fst g) = nn \<and> fst t = fst g \<and> length (snd g) = nn * nn \<and> length (snd t) = nn * nn \<and>
      (\<forall>q<nn. \<forall>p\<le>q. snd g ! (q * nn + p) = snd t ! (q * nn + p)) \<and>
      (\<forall>q<nn. \<forall>p<nn. snd t ! (q * nn + p) = snd t ! (p * nn + q)))"

text \<open>The trace of an \<open>norb \<times> norb\<close> matrix stored row by row.\<close>

definition trace :: "nat \<Rightarrow> double list \<Rightarrow> double" where
  "trace norb rdm1 = (\<Sum>p\<leftarrow>[0..<norb]. rdm1 ! (p * norb + p))"

text \<open>
  A raw link table that is a valid single-excitation table for \<open>nstr\<close> strings of
  \<open>nelec\<close> electrons in \<open>norb\<close> orbitals, as far as the trace needs it: it has
  \<open>nstr * nlink\<close> quadruples; every quadruple has its orbitals in \<open>[0, norb)\<close> (and
  \<open>norb \<le> 256\<close>, so that they fit the 8-bit fields), its destination in \<open>[0, nstr)\<close>
  and sign \<open>+1\<close> or \<open>-1\<close>; a diagonal quadruple (\<open>a = i\<close>) leads to the same string with
  sign \<open>+1\<close>; and every string has exactly \<open>nelec\<close> diagonal quadruples, one for each
  occupied orbital.
\<close>

definition valid_links :: "nat \<Rightarrow> nat \<Rightarrow> nat \<Rightarrow> nat \<Rightarrow> c_int list \<Rightarrow> bool" where
  "valid_links nelec norb nstr nlink link_index =
     (norb \<le> 256 \<and> length link_index = nstr * nlink * 4 \<and>
      list_all (\<lambda>k.
         list_all (\<lambda>j.
            (let a = sint (link_index ! ((k * nlink + j) * 4 + 0));
                 i = sint (link_index ! ((k * nlink + j) * 4 + 1));
                 d = sint (link_index ! ((k * nlink + j) * 4 + 2));
                 s = sint (link_index ! ((k * nlink + j) * 4 + 3))
             in 0 \<le> a \<and> a < int norb \<and> 0 \<le> i \<and> i < int norb \<and> 0 \<le> d \<and> d < int nstr \<and>
                (s = 1 \<or> s = - 1) \<and> (a = i \<longrightarrow> d = int k \<and> s = 1)))
           [0..<nlink] \<and>
         length (filter (\<lambda>j. sint (link_index ! ((k * nlink + j) * 4 + 0))
                              = sint (link_index ! ((k * nlink + j) * 4 + 1))) [0..<nlink]) = nelec)
        [0..<nstr])"

section \<open>Index arithmetic and the symmetrization loop\<close>

lemma idx_div: "c < n \<Longrightarrow> (r * n + c) div n = (r::nat)"
  by simp

lemma idx_mod: "c < n \<Longrightarrow> (r * n + c) mod n = (c::nat)"
  by simp

lemma idx_inj: "c < n \<Longrightarrow> c' < n \<Longrightarrow> (r * n + c = r' * n + c') = (r = r' \<and> c = (c'::nat))"
  by (metis idx_div idx_mod)

lemma idx_bound: "r < m \<Longrightarrow> c < n \<Longrightarrow> r * n + c < m * (n::nat)"
proof -
  assume a: "r < m" "c < n"
  then have "r * n + c < r * n + n" by simp
  also have "\<dots> = Suc r * n" by simp
  also have "\<dots> \<le> m * n" using a by (intro mult_le_mono1) simp
  finally show ?thesis .
qed

lemma fold_upd_length [simp]: "length (fold (\<lambda>j m. m[f j m := g j m]) js m) = length m"
  by (induction js arbitrary: m) auto

lemma symmetrize_loop_length [simp]: "length (symmetrize_loop n m) = length m"
proof -
  have "length (fold (\<lambda>i m. fold (\<lambda>j m. m[j * n + i := m ! (i * n + j)]) [0..<i] m) is m) = length m" for "is"
    by (induction "is" arbitrary: m) auto
  then show ?thesis by (simp add: symmetrize_loop_def)
qed

lemma symmetrize_row:
  assumes len: "length m = n * n" and i: "i < n"
  shows "L \<le> i \<Longrightarrow> r < n \<Longrightarrow> c < n \<Longrightarrow>
         fold (\<lambda>j m. m[j * n + i := m ! (i * n + j)]) [0..<L] m ! (r * n + c)
         = (if c = i \<and> r < L then m ! (i * n + r) else m ! (r * n + c))"
proof (induction L arbitrary: r c)
  case 0
  then show ?case by simp
next
  case (Suc L)
  let ?m' = "fold (\<lambda>j m. m[j * n + i := m ! (i * n + j)]) [0..<L] m"
  have L: "L < i" "L < n" using Suc.prems i by auto
  have src: "?m' ! (i * n + L) = m ! (i * n + L)"
    using Suc.IH [of i L] L i by simp
  have rc: "?m' ! (r * n + c) = (if c = i \<and> r < L then m ! (i * n + r) else m ! (r * n + c))"
    using Suc.IH [of r c] Suc.prems L by simp
  have bound: "L * n + i < length ?m'"
    using idx_bound [OF L(2) i] len by simp
  show ?case
  proof (cases "r = L \<and> c = i")
    case True
    then show ?thesis using src bound by simp
  next
    case False
    then have "L * n + i \<noteq> r * n + c"
      using idx_inj [OF i Suc.prems(3), of L r] by auto
    then show ?thesis using rc False by (auto simp: less_Suc_eq)
  qed
qed

lemma symmetrize_rows:
  assumes len: "length m = n * n"
  shows "I \<le> n \<Longrightarrow> r < n \<Longrightarrow> c < n \<Longrightarrow>
         fold (\<lambda>i m. fold (\<lambda>j m. m[j * n + i := m ! (i * n + j)]) [0..<i] m) [0..<I] m ! (r * n + c)
         = (if r < c \<and> c < I then m ! (c * n + r) else m ! (r * n + c))"
proof (induction I arbitrary: r c)
  case 0
  then show ?case by simp
next
  case (Suc I)
  let ?M = "fold (\<lambda>i m. fold (\<lambda>j m. m[j * n + i := m ! (i * n + j)]) [0..<i] m) [0..<I] m"
  have I: "I < n" using Suc.prems by simp
  have lenM: "length ?M = n * n"
  proof -
    have "length (fold (\<lambda>i m. fold (\<lambda>j m. m[j * n + i := m ! (i * n + j)]) [0..<i] m) is m) = length m" for "is"
      by (induction "is" arbitrary: m) auto
    then show ?thesis using len by simp
  qed
  have row: "fold (\<lambda>j m. m[j * n + I := m ! (I * n + j)]) [0..<I] ?M ! (r * n + c)
         = (if c = I \<and> r < I then ?M ! (I * n + r) else ?M ! (r * n + c))"
    using symmetrize_row [OF lenM I, of I r c] Suc.prems by simp
  have a: "r < I \<Longrightarrow> ?M ! (I * n + r) = m ! (I * n + r)"
    using Suc.IH [of I r] I by simp
  have b: "?M ! (r * n + c) = (if r < c \<and> c < I then m ! (c * n + r) else m ! (r * n + c))"
    using Suc.IH [of r c] Suc.prems I by simp
  show ?case using row a b by (auto simp: less_Suc_eq)
qed

lemma symmetrize_loop_nth:
  assumes "length m = n * n" "r < n" "c < n"
  shows "symmetrize_loop n m ! (r * n + c) = m ! (max r c * n + min r c)"
  using symmetrize_rows [OF assms(1), of n r c] assms(2,3)
  by (auto simp: symmetrize_loop_def max_def min_def)

section \<open>The driver: sizes and the accumulators before symmetrization\<close>

lemma fold_pointwise:
  "k < length m \<Longrightarrow>
   fold (\<lambda>i m. m[i := h i (m ! i)]) [a..<b] m ! k = (if a \<le> k \<and> k < b then h k (m ! k) else m ! k)"
proof (induction b)
  case 0
  then show ?case by simp
next
  case (Suc b)
  show ?case
  proof (cases "a \<le> b")
    case True
    then show ?thesis using Suc by (auto simp: nth_list_update less_Suc_eq)
  next
    case False
    then show ?thesis by auto
  qed
qed

lemma reduce_into_length [simp]: "length (reduce_into n rdm pdm) = length rdm"
  by (simp add: reduce_into_def)

lemma reduce_into_zero: "length pdm = n \<Longrightarrow> reduce_into n (replicate n 0) pdm = pdm"
  by (rule nth_equalityI)
     (simp_all add: reduce_into_def fold_pointwise [where h = "\<lambda>i v. v + pdm ! i"])

lemma dgemv_N_length [simp]: "length (dgemv_N m n alpha A lda x beta y) = length y"
  by (simp add: dgemv_N_def)

lemma dsyrk_UN_length [simp]: "length (dsyrk_UN n k alpha A lda beta C ldc) = length C"
  by (simp add: dsyrk_UN_def)

lemma dgemm_NT_length [simp]: "length (dgemm_NT m n k alpha A lda B ldb beta C ldc) = length C"
  by (simp add: dgemm_NT_def)

lemma keeps_sizes_ms0: "keeps_sizes FCIrdm12kern_ms0"
  unfolding keeps_sizes_def FCIrdm12kern_ms0_def Let_def
  by (simp split: prod.splits)

lemma keeps_sizes_spin0: "keeps_sizes FCIrdm12kern_spin0"
  unfolding keeps_sizes_def FCIrdm12kern_spin0_def Let_def
  by (simp split: prod.splits)

lemma keeps_sizes_tdm_ms0: "keeps_sizes FCItdm12kern_ms0"
  unfolding keeps_sizes_def FCItdm12kern_ms0_def Let_def
  by (simp split: prod.splits)

lemma keeps_sizes_a: "keeps_sizes FCIrdm12kern_a"
  unfolding keeps_sizes_def FCIrdm12kern_a_def Let_def
  by (simp split: prod.splits)

lemma keeps_sizes_b: "keeps_sizes FCIrdm12kern_b"
  unfolding keeps_sizes_def FCIrdm12kern_b_def Let_def
  by (simp split: prod.splits)

lemma keeps_sizes_tdm_a: "keeps_sizes FCItdm12kern_a"
  unfolding keeps_sizes_def FCItdm12kern_a_def Let_def
  by (simp split: prod.splits)

lemma keeps_sizes_tdm_b: "keeps_sizes FCItdm12kern_b"
  unfolding keeps_sizes_def FCItdm12kern_b_def Let_def
  by (simp split: prod.splits)

lemma keeps_sizes_tdm_ab: "keeps_sizes FCItdm12kern_ab"
  unfolding keeps_sizes_def FCItdm12kern_ab_def Let_def
  by (simp split: prod.splits)

lemma keeps_sizesD:
  assumes "keeps_sizes K"
  shows "length (fst (K rdm1 rdm2 bra ket fillcnt stra_id strb_id norb na nb nlinka nlinkb ca cb)) = length rdm1"
    and "length (snd (K rdm1 rdm2 bra ket fillcnt stra_id strb_id norb na nb nlinka nlinkb ca cb)) = length rdm2"
  using assms by (simp_all add: keeps_sizes_def)

lemma drv_blocks_inv:
  "(\<And>blen ib s. P s \<Longrightarrow> P (body blen ib s)) \<Longrightarrow> P s \<Longrightarrow> P (drv_blocks body nb ib s)"
proof (induction body nb ib s rule: drv_blocks.induct)
  case (1 body nb ib pdm)
  show ?case
  proof (cases "ib < nb")
    case True
    have b: "P (body (min (min BUFBASE nb) (nb - ib)) ib pdm)"
      by (rule "1.prems"(1)) (rule "1.prems"(2))
    have "P (drv_blocks body nb (ib + min BUFBASE nb)
                   (body (min (min BUFBASE nb) (nb - ib)) ib pdm))"
      by (rule "1.IH" [OF True "1.prems"(1) b])
    then show ?thesis by (subst drv_blocks.simps) (simp add: True)
  next
    case False
    then show ?thesis using "1.prems"(2) by (subst drv_blocks.simps) simp
  qed
qed

lemma fold_inv:
  assumes "\<And>x s. P s \<Longrightarrow> P (f x s)"
  shows "P s \<Longrightarrow> P (fold f xs s)"
  by (induction xs arbitrary: s) (auto simp: assms)

text \<open>The accumulators of the driver before the symmetrization pass.\<close>

lemma drv_symm_eq:
  "symm \<noteq> 0 \<Longrightarrow>
   FCIrdm12_drv K bra ket norb na nb nlinka nlinkb la lb symm =
     (symmetrize_loop norb (fst (FCIrdm12_drv K bra ket norb na nb nlinka nlinkb la lb 0)),
      symmetrize_loop (norb * norb) (snd (FCIrdm12_drv K bra ket norb na nb nlinka nlinkb la lb 0)))"
  by (simp add: FCIrdm12_drv_def Let_def split: prod.splits)

lemma drv_sizes:
  assumes "keeps_sizes K"
  shows "length (fst (FCIrdm12_drv K bra ket norb na nb nlinka nlinkb la lb 0)) = norb * norb"
    and "length (snd (FCIrdm12_drv K bra ket norb na nb nlinka nlinkb la lb 0)) = norb * norb * (norb * norb)"
proof -
  let ?P = "\<lambda>s. length (fst s) = norb * norb \<and> length (snd s) = norb * norb * (norb * norb)"
  let ?ca = "compress_link (malloc (nlinka * na)) la norb na nlinka"
  let ?cb = "compress_link (malloc (nlinkb * nb)) lb norb nb nlinkb"
  let ?body = "\<lambda>blen ib. fold (\<lambda>strk (pdm1, pdm2).
                    K pdm1 pdm2 bra ket blen strk ib norb na nb nlinka nlinkb ?ca ?cb) [0..<na]"
  have step: "?P s \<Longrightarrow> ?P (?body blen ib s)" for blen ib s
    by (rule fold_inv [where P = ?P]) (auto simp: keeps_sizesD [OF assms] split: prod.splits)
  have "?P (drv_blocks ?body nb 0 (replicate (norb * norb) 0, replicate (norb * norb * (norb * norb)) 0))"
    by (rule drv_blocks_inv [where P = ?P]) (use step in simp_all)
  then show "length (fst (FCIrdm12_drv K bra ket norb na nb nlinka nlinkb la lb 0)) = norb * norb"
    and "length (snd (FCIrdm12_drv K bra ket norb na nb nlinka nlinkb la lb 0)) = norb * norb * (norb * norb)"
    by (simp_all add: FCIrdm12_drv_def Let_def split: prod.splits)
qed

section \<open>Integer conversions and the compactor\<close>

lemma uint_ucast_32_8: "uint (ucast (x :: 32 word) :: 8 word) = sint x mod 2 ^ 8"
proof -
  have "uint (ucast x :: 8 word) = uint x mod 2 ^ 8"
    by (simp add: unsigned_ucast_eq take_bit_eq_mod)
  also have "uint x = sint x mod 2 ^ 32"
    by (simp add: uint_sint take_bit_eq_mod)
  also have "sint x mod 2 ^ 32 mod 2 ^ 8 = sint x mod 2 ^ 8"
    by (rule mod_mod_cancel) simp
  finally show ?thesis .
qed

lemma uint_32_sint: "uint (x :: 32 word) = sint x mod 2 ^ 32"
  by (simp add: uint_sint take_bit_eq_mod)

lemma sint_ge_32: "- (2 ^ 31) \<le> sint (x :: 32 word)"
  using sint_ge [of x] by simp

lemma sint_lt_32: "sint (x :: 32 word) < 2 ^ 31"
  using sint_lt [of x] by simp

lemma uint_ucast_roundtrip: "(uint (ucast (x :: 32 word) :: 8 word) = sint x) = (0 \<le> sint x \<and> sint x < 256)"
proof
  assume "uint (ucast x :: 8 word) = sint x"
  then have e: "sint x = sint x mod 256" by (simp add: uint_ucast_32_8)
  have "0 \<le> sint x mod 256" "sint x mod 256 < 256" by simp_all
  then show "0 \<le> sint x \<and> sint x < 256"
    using e by linarith
next
  assume "0 \<le> sint x \<and> sint x < 256"
  then show "uint (ucast x :: 8 word) = sint x"
    by (simp add: uint_ucast_32_8)
qed

lemma uint_32_roundtrip: "(uint (x :: 32 word) = sint x) = (0 \<le> sint x \<and> sint x < 2 ^ 32)"
proof
  assume "uint x = sint x"
  then have "0 \<le> sint x" by (metis uint_ge_0)
  moreover have "sint x < 2 ^ 32" using sint_lt_32 [of x] by simp
  ultimately show "0 \<le> sint x \<and> sint x < 2 ^ 32" by simp
next
  assume "0 \<le> sint x \<and> sint x < 2 ^ 32"
  then show "uint x = sint x" by (simp add: uint_32_sint)
qed

lemma sint_ucast_32_8: "sint (ucast (x :: 32 word) :: 8 word) = signed_take_bit 7 (sint x)"
proof -
  have "sint (ucast x :: 8 word) = signed_take_bit 7 (uint x)"
    by (simp add: signed_ucast_eq)
  also have "\<dots> = signed_take_bit 7 (take_bit 32 (sint x))"
    by (simp add: uint_sint)
  also have "\<dots> = signed_take_bit 7 (sint x)"
    by (simp add: signed_take_bit_take_bit)
  finally show ?thesis .
qed

lemma sint_ucast_roundtrip:
  "(sint (ucast (x :: 32 word) :: 8 word) = sint x) = (- 128 \<le> sint x \<and> sint x < 128)"
  unfolding sint_ucast_32_8
  using signed_take_bit_int_eq_self_iff [of 7 "sint x"] by simp

lemma fold_upd_run:
  "fold (\<lambda>j cl. cl[base + j := g j]) [0..<n] cl ! m
     = (if base \<le> m \<and> m < base + n \<and> m < length cl then g (m - base) else cl ! m)"
proof (induction n)
  case 0
  then show ?case by auto
next
  case (Suc n)
  show ?case
  proof (cases "m = base + n")
    case True
    then show ?thesis using Suc
      by (cases "base + n < length cl") (simp_all add: list_update_beyond)
  next
    case False
    then show ?thesis using Suc by (auto simp: Suc_diff_le)
  qed
qed

lemma fold_upd_groups:
  assumes "K * nlink \<le> length cl"
  shows "(\<forall>k<K. \<forall>j<nlink.
            fold (\<lambda>k cl. fold (\<lambda>j cl. cl[k * nlink + j := g k j]) [0..<nlink] cl) [0..<K] cl
              ! (k * nlink + j) = g k j) \<and>
         (\<forall>m\<ge>K * nlink.
            fold (\<lambda>k cl. fold (\<lambda>j cl. cl[k * nlink + j := g k j]) [0..<nlink] cl) [0..<K] cl ! m
              = cl ! m)"
  using assms
proof (induction K)
  case 0
  then show ?case by simp
next
  case (Suc K)
  let ?F = "fold (\<lambda>k cl. fold (\<lambda>j cl. cl[k * nlink + j := g k j]) [0..<nlink] cl) [0..<K] cl"
  have len: "length ?F = length cl"
  proof -
    have "length (fold (\<lambda>k cl. fold (\<lambda>j cl. cl[k * nlink + j := g k j]) [0..<nlink] cl) ks cl) = length cl" for ks
      by (induction ks arbitrary: cl) auto
    then show ?thesis by simp
  qed
  have K: "K * nlink \<le> length cl" and K': "K * nlink + nlink \<le> length cl"
    using Suc.prems by simp_all
  have IH1: "\<And>k j. k < K \<Longrightarrow> j < nlink \<Longrightarrow> ?F ! (k * nlink + j) = g k j"
    and IH2: "\<And>m. K * nlink \<le> m \<Longrightarrow> ?F ! m = cl ! m"
    using Suc.IH [OF K] by simp_all
  have step: "fold (\<lambda>k cl. fold (\<lambda>j cl. cl[k * nlink + j := g k j]) [0..<nlink] cl) [0..<Suc K] cl ! m
      = (if K * nlink \<le> m \<and> m < K * nlink + nlink \<and> m < length cl then g K (m - K * nlink) else ?F ! m)" for m
    by (simp add: fold_upd_run len)
  have a: "fold (\<lambda>k cl. fold (\<lambda>j cl. cl[k * nlink + j := g k j]) [0..<nlink] cl) [0..<Suc K] cl
              ! (k * nlink + j) = g k j" if "k < Suc K" "j < nlink" for k j
  proof (cases "k = K")
    case True
    then show ?thesis using that K' step [of "K * nlink + j"] by simp
  next
    case False
    then have "k < K" using that by simp
    then have "k * nlink + j < K * nlink" using that(2) by (rule idx_bound)
    then show ?thesis using IH1 [OF \<open>k < K\<close> that(2)] step [of "k * nlink + j"] by simp
  qed
  have b: "fold (\<lambda>k cl. fold (\<lambda>j cl. cl[k * nlink + j := g k j]) [0..<nlink] cl) [0..<Suc K] cl ! m
              = cl ! m" if "Suc K * nlink \<le> m" for m
    using that IH2 [of m] step [of m] by simp
  show ?case using a b by blast
qed

lemma compress_link_length [simp]:
  "length (compress_link clink link_index norb nstr nlink) = length clink"
proof -
  have "length (fold (\<lambda>k cl. fold (\<lambda>j cl. cl[k * nlink + j := g k j]) [0..<nlink] cl) ks cl) = length cl" for ks g and cl :: "LinkT list"
    by (induction ks arbitrary: cl) auto
  then show ?thesis by (simp add: compress_link_def Let_def)
qed

lemma compress_link_nth:
  assumes "nstr * nlink \<le> length clink" "k < nstr" "j < nlink"
  shows "compress_link clink link_index norb nstr nlink ! (k * nlink + j)
         = \<lparr>link_addr = ucast (link_index ! ((k * nlink + j) * 4 + 2)),
            link_a = ucast (link_index ! ((k * nlink + j) * 4 + 0)),
            link_i = ucast (link_index ! ((k * nlink + j) * 4 + 1)),
            link_sign = ucast (link_index ! ((k * nlink + j) * 4 + 3))\<rparr>"
proof -
  have "compress_link clink link_index norb nstr nlink ! (k * nlink + j)
     = \<lparr>link_addr = ucast (link_index ! (k * (nlink * 4) + (j * 4 + 2))),
            link_a = ucast (link_index ! (k * (nlink * 4) + (j * 4 + 0))),
            link_i = ucast (link_index ! (k * (nlink * 4) + (j * 4 + 1))),
            link_sign = ucast (link_index ! (k * (nlink * 4) + (j * 4 + 3)))\<rparr>"
    unfolding compress_link_def Let_def
    using fold_upd_groups [OF assms(1), of "\<lambda>k j. \<lparr>link_addr = ucast (link_index ! (k * (nlink * 4) + (j * 4 + 2))),
            link_a = ucast (link_index ! (k * (nlink * 4) + (j * 4 + 0))),
            link_i = ucast (link_index ! (k * (nlink * 4) + (j * 4 + 1))),
            link_sign = ucast (link_index ! (k * (nlink * 4) + (j * 4 + 3)))\<rparr>"] assms(2,3)
    by blast
  moreover have "k * (nlink * 4) + (j * 4 + n) = (k * nlink + j) * 4 + n" for n
    by (simp add: algebra_simps)
  ultimately show ?thesis by metis
qed

section \<open>Sizes of the T1 buffers and entries of the BLAS results\<close>

lemma memset0_length [simp]: "length (memset0 xs off n) = length xs"
  by (simp add: memset0_def)

lemma malloc_length [simp]: "length (malloc n) = n"
  by (simp add: malloc_def)

lemma rdm2_a_t1_length [simp]:
  "length (fst (rdm2_a_t1 ci0 t1 fillcnt stra_id norb nstrb nlinka clink_indexa)) = length t1"
proof -
  let ?P = "\<lambda>s :: double list \<times> double. length (fst s) = length t1"
  have inner: "?P (fold (\<lambda>k (t1, csum). (t1[f k := g k t1], h k csum)) ks s)" if "?P s"
    for f g h ks s
    using that by (induction ks arbitrary: s) (auto split: prod.splits)
  show ?thesis
    unfolding rdm2_a_t1_def Let_def
    by (rule fold_inv [where P = ?P]) (auto split: prod.splits intro: inner)
qed

lemma rdm2_0b_t1_length [simp]:
  "length (fst (rdm2_0b_t1 ci0 t1 fillcnt stra_id norb nstrb nlinkb clink_indexb)) = length t1"
proof -
  let ?P = "\<lambda>s :: double list \<times> double. length (fst s) = length t1"
  have inner: "?P (fold (\<lambda>j (t1, csum). (t1[f j := g j t1], h j csum)) js s)" if "?P s"
    for f g h js s
    using that by (induction js arbitrary: s) (auto split: prod.splits)
  show ?thesis
    unfolding rdm2_0b_t1_def Let_def
    by (rule fold_inv [where P = ?P]) (auto split: prod.splits intro: inner)
qed

lemma spin0_t1_length:
  "length (fst (snd (spin0_t1 ket fillcnt stra_id strb_id norb na nlinka clink_indexa)))
     = norb * norb * na"
  unfolding spin0_t1_def Let_def
  by (simp add: case_prod_beta)

lemma spin0_t1_fill:
  "fst (spin0_t1 ket fillcnt stra_id strb_id norb na nlinka clink_indexa)
     = (if strb_id + fillcnt < stra_id then (fillcnt, fillcnt)
        else (stra_id - strb_id, stra_id - strb_id + 1))"
  unfolding spin0_t1_def Let_def
  by (simp add: case_prod_beta)

lemma dgemv_N_nth:
  "p < length y \<Longrightarrow>
   dgemv_N m n alpha A lda x beta y ! p
     = (if p < m then alpha * (\<Sum>k\<leftarrow>[0..<n]. A ! (k * lda + p) * ptr_get x k) + beta * y ! p
        else y ! p)"
  by (simp add: dgemv_N_def)

lemma dsyrk_UN_nth:
  "idx < length C \<Longrightarrow>
   dsyrk_UN n k alpha A lda beta C ldc ! idx
     = (if idx mod ldc \<le> idx div ldc \<and> idx div ldc < n
        then alpha * (\<Sum>l\<leftarrow>[0..<k]. A ! (l * lda + idx mod ldc) * A ! (l * lda + idx div ldc))
             + beta * C ! idx
        else C ! idx)"
  by (simp add: dsyrk_UN_def)

lemma dgemm_NT_nth:
  "idx < length C \<Longrightarrow>
   dgemm_NT m n k alpha A lda B ldb beta C ldc ! idx
     = (if idx mod ldc < m \<and> idx div ldc < n
        then alpha * (\<Sum>l\<leftarrow>[0..<k]. A ! (l * lda + idx mod ldc) * B ! (l * ldb + idx div ldc))
             + beta * C ! idx
        else C ! idx)"
  by (simp add: dgemm_NT_def)

lemma spin0_scale_nth:
  assumes "k * nnorb + p < length buf" "p < nnorb"
  shows "spin0_scale nnorb fill0 fill1 buf ! (k * nnorb + p)
         = (if fill0 \<le> k \<and> k < fill1 then buf ! (k * nnorb + p) * SQRT2 else buf ! (k * nnorb + p))"
proof -
  have a: "(fill0 * nnorb \<le> k * nnorb + p) = (fill0 \<le> k)"
  proof
    assume h: "fill0 * nnorb \<le> k * nnorb + p"
    show "fill0 \<le> k"
    proof (rule ccontr)
      assume "\<not> fill0 \<le> k"
      then have "Suc k \<le> fill0" by simp
      then have "Suc k * nnorb \<le> fill0 * nnorb" by (rule mult_le_mono1)
      then show False using h assms(2) by simp
    qed
  next
    assume "fill0 \<le> k"
    then have "fill0 * nnorb \<le> k * nnorb" by (rule mult_le_mono1)
    then show "fill0 * nnorb \<le> k * nnorb + p" by linarith
  qed
  have b: "(k * nnorb + p < fill1 * nnorb) = (k < fill1)"
  proof
    assume h: "k * nnorb + p < fill1 * nnorb"
    show "k < fill1"
    proof (rule ccontr)
      assume "\<not> k < fill1"
      then have "fill1 * nnorb \<le> k * nnorb" by (intro mult_le_mono1) simp
      then show False using h by linarith
    qed
  next
    assume "k < fill1"
    then show "k * nnorb + p < fill1 * nnorb" using assms(2) by (rule idx_bound)
  qed
  show ?thesis
    unfolding spin0_scale_def
    using fold_pointwise [OF assms(1), where h = "\<lambda>i v. v * SQRT2" and a = "fill0 * nnorb"
        and b = "fill1 * nnorb"]
    by (simp add: a b)
qed

lemma SQRT2_close: "\<bar>SQRT2 * SQRT2 - 2\<bar> < 1 / 10 ^ 18"
  by (simp add: SQRT2_def)

section \<open>A ground-state run and a transition run on the same state\<close>

lemma ms0_kernel_alt:
  "FCIrdm12kern_ms0 rdm1 rdm2 bra ket fillcnt stra_id strb_id norb na nb nlinka nlinkb ca cb =
     (if CSUMTHR < csum_ms0 ket fillcnt stra_id strb_id norb na nlinka ca
      then (dgemv_N (norb * norb) fillcnt 1 (t1_ms0 ket fillcnt stra_id strb_id norb na nlinka ca)
              (norb * norb) (ptr_at ket (stra_id * na + strb_id)) 1 rdm1,
            dsyrk_UN (norb * norb) fillcnt 1 (t1_ms0 ket fillcnt stra_id strb_id norb na nlinka ca)
              (norb * norb) 1 rdm2 (norb * norb))
      else (rdm1, rdm2))"
  unfolding FCIrdm12kern_ms0_def csum_ms0_def t1_ms0_def Let_def
  by (simp add: case_prod_beta)

lemma tdm_ms0_kernel_alt:
  "FCItdm12kern_ms0 tdm1 tdm2 bra ket fillcnt stra_id strb_id norb na nb nlinka nlinkb ca cb =
     (if csum_ms0 bra fillcnt stra_id strb_id norb na nlinka ca < CSUMTHR then (tdm1, tdm2)
      else if csum_ms0 ket fillcnt stra_id strb_id norb na nlinka ca < CSUMTHR then (tdm1, tdm2)
      else (dgemv_N (norb * norb) fillcnt 1 (t1_ms0 ket fillcnt stra_id strb_id norb na nlinka ca)
              (norb * norb) (ptr_at bra (stra_id * na + strb_id)) 1 tdm1,
            dgemm_NT (norb * norb) (norb * norb) fillcnt 1
              (t1_ms0 ket fillcnt stra_id strb_id norb na nlinka ca) (norb * norb)
              (t1_ms0 bra fillcnt stra_id strb_id norb na nlinka ca) (norb * norb)
              1 tdm2 (norb * norb)))"
  unfolding FCItdm12kern_ms0_def csum_ms0_def t1_ms0_def Let_def
  by (simp add: case_prod_beta)

lemma same_state_kernel_step:
  assumes R: "same_state_rel (norb * norb) (g1, g2) (t1, t2)"
    and ne: "csum_ms0 ket fillcnt stra_id strb_id norb na nlinka ca \<noteq> CSUMTHR"
  shows "same_state_rel (norb * norb)
           (FCIrdm12kern_ms0 g1 g2 ket ket fillcnt stra_id strb_id norb na nb nlinka nlinkb ca cb)
           (FCItdm12kern_ms0 t1 t2 ket ket fillcnt stra_id strb_id norb na nb nlinka nlinkb ca cb)"
proof (cases "CSUMTHR < csum_ms0 ket fillcnt stra_id strb_id norb na nlinka ca")
  case False
  then have "csum_ms0 ket fillcnt stra_id strb_id norb na nlinka ca < CSUMTHR" using ne by simp
  then show ?thesis using R by (simp add: ms0_kernel_alt tdm_ms0_kernel_alt)
next
  case True
  let ?nn = "norb * norb"
  let ?A = "t1_ms0 ket fillcnt stra_id strb_id norb na nlinka ca"
  let ?g2 = "dsyrk_UN ?nn fillcnt 1 ?A ?nn 1 g2 ?nn"
  let ?t2 = "dgemm_NT ?nn ?nn fillcnt 1 ?A ?nn ?A ?nn 1 t2 ?nn"
  have len: "length g1 = ?nn" "t1 = g1" "length g2 = ?nn * ?nn" "length t2 = ?nn * ?nn"
    and low: "\<And>q p. q < ?nn \<Longrightarrow> p \<le> q \<Longrightarrow> g2 ! (q * ?nn + p) = t2 ! (q * ?nn + p)"
    and sym: "\<And>q p. q < ?nn \<Longrightarrow> p < ?nn \<Longrightarrow> t2 ! (q * ?nn + p) = t2 ! (p * ?nn + q)"
    using R by (simp_all add: same_state_rel_def)
  have t2nth: "?t2 ! (q * ?nn + p)
      = (\<Sum>l\<leftarrow>[0..<fillcnt]. ?A ! (l * ?nn + p) * ?A ! (l * ?nn + q)) + t2 ! (q * ?nn + p)"
    if "q < ?nn" "p < ?nn" for q p
  proof -
    have idx: "q * ?nn + p < length t2" using idx_bound [OF that] len by simp
    have d: "(q * ?nn + p) div ?nn = q" "(q * ?nn + p) mod ?nn = p"
      using idx_div [OF that(2), of q] idx_mod [OF that(2), of q] by simp_all
    show ?thesis unfolding dgemm_NT_nth [OF idx] d using that by simp
  qed
  have g2nth: "?g2 ! (q * ?nn + p)
      = (\<Sum>l\<leftarrow>[0..<fillcnt]. ?A ! (l * ?nn + p) * ?A ! (l * ?nn + q)) + g2 ! (q * ?nn + p)"
    if "q < ?nn" "p \<le> q" for q p
  proof -
    have p: "p < ?nn" using that by simp
    have idx: "q * ?nn + p < length g2" using idx_bound [OF that(1) p] len by simp
    have d: "(q * ?nn + p) div ?nn = q" "(q * ?nn + p) mod ?nn = p"
      using idx_div [OF p, of q] idx_mod [OF p, of q] by simp_all
    show ?thesis unfolding dsyrk_UN_nth [OF idx] d using that by simp
  qed
  have a: "?g2 ! (q * ?nn + p) = ?t2 ! (q * ?nn + p)" if "q < ?nn" "p \<le> q" for q p
    using that low [OF that] by (simp add: g2nth t2nth)
  have b: "?t2 ! (q * ?nn + p) = ?t2 ! (p * ?nn + q)" if "q < ?nn" "p < ?nn" for q p
  proof -
    have "(\<Sum>l\<leftarrow>[0..<fillcnt]. ?A ! (l * ?nn + p) * ?A ! (l * ?nn + q))
        = (\<Sum>l\<leftarrow>[0..<fillcnt]. ?A ! (l * ?nn + q) * ?A ! (l * ?nn + p))"
      by (simp add: mult.commute)
    then show ?thesis using that sym [OF that] by (simp add: t2nth)
  qed
  have "\<not> csum_ms0 ket fillcnt stra_id strb_id norb na nlinka ca < CSUMTHR" using True by simp
  then show ?thesis
    using True len a b
    by (simp add: ms0_kernel_alt tdm_ms0_kernel_alt same_state_rel_def)
qed

lemma fold_rel:
  "(\<And>x s s'. x \<in> set xs \<Longrightarrow> R s s' \<Longrightarrow> R (f x s) (g x s')) \<Longrightarrow> R s s' \<Longrightarrow>
   R (fold f xs s) (fold g xs s')"
proof (induction xs arbitrary: s s')
  case Nil
  then show ?case by simp
next
  case (Cons x xs)
  have "R (f x s) (g x s')" using Cons.prems by simp
  moreover have "\<And>y s s'. y \<in> set xs \<Longrightarrow> R s s' \<Longrightarrow> R (f y s) (g y s')"
    using Cons.prems(1) by simp
  ultimately have "R (fold f xs (f x s)) (fold g xs (g x s'))"
    using Cons.IH by blast
  then show ?case by simp
qed

lemma drv_blocks_rel:
  "(\<And>ib s s'. ib < nb \<Longrightarrow> ib mod min BUFBASE nb = 0 \<Longrightarrow> R s s' \<Longrightarrow>
       R (body (min (min BUFBASE nb) (nb - ib)) ib s) (body' (min (min BUFBASE nb) (nb - ib)) ib s'))
   \<Longrightarrow> ib mod min BUFBASE nb = 0 \<Longrightarrow> R s s'
   \<Longrightarrow> R (drv_blocks body nb ib s) (drv_blocks body' nb ib s')"
proof (induction body nb ib s arbitrary: s' rule: drv_blocks.induct)
  case (1 body nb ib pdm)
  show ?case
  proof (cases "ib < nb")
    case True
    have b: "R (body (min (min BUFBASE nb) (nb - ib)) ib pdm)
               (body' (min (min BUFBASE nb) (nb - ib)) ib s')"
      by (rule "1.prems"(1) [OF True "1.prems"(2) "1.prems"(3)])
    have m: "(ib + min BUFBASE nb) mod min BUFBASE nb = 0"
      using "1.prems"(2) by simp
    have "R (drv_blocks body nb (ib + min BUFBASE nb) (body (min (min BUFBASE nb) (nb - ib)) ib pdm))
            (drv_blocks body' nb (ib + min BUFBASE nb) (body' (min (min BUFBASE nb) (nb - ib)) ib s'))"
      by (rule "1.IH" [OF True "1.prems"(1) m b])
    then show ?thesis
      using True by (simp add: drv_blocks.simps [of body nb ib] drv_blocks.simps [of body' nb ib])
  next
    case False
    then show ?thesis
      using "1.prems"(3)
      by (simp add: drv_blocks.simps [of body nb ib] drv_blocks.simps [of body' nb ib])
  qed
qed

lemma no_block_at_thresholdD:
  assumes "no_block_at_threshold ket norb na nlink link_index"
    and "ib < na" and "ib mod min BUFBASE na = 0" and "strk < na"
  shows "csum_ms0 ket (min (min BUFBASE na) (na - ib)) strk ib norb na nlink
           (compress_link (malloc (nlink * na)) link_index norb na nlink) \<noteq> CSUMTHR"
  using assms by (simp add: no_block_at_threshold_def list_all_iff)

lemma same_state_drv:
  assumes "no_block_at_threshold ket norb na nlink link_index"
  shows "same_state_rel (norb * norb)
           (FCIrdm12_drv FCIrdm12kern_ms0 ket ket norb na na nlink nlink link_index link_index 0)
           (FCIrdm12_drv FCItdm12kern_ms0 ket ket norb na na nlink nlink link_index link_index 0)"
proof -
  let ?nn = "norb * norb"
  let ?cl = "compress_link (malloc (nlink * na)) link_index norb na nlink"
  let ?z = "(replicate ?nn (0::double), replicate (?nn * ?nn) (0::double))"
  let ?bg = "\<lambda>blen ib. fold (\<lambda>strk (pdm1, pdm2).
               FCIrdm12kern_ms0 pdm1 pdm2 ket ket blen strk ib norb na na nlink nlink ?cl ?cl) [0..<na]"
  let ?bt = "\<lambda>blen ib. fold (\<lambda>strk (pdm1, pdm2).
               FCItdm12kern_ms0 pdm1 pdm2 ket ket blen strk ib norb na na nlink nlink ?cl ?cl) [0..<na]"
  let ?R = "same_state_rel ?nn"
  have z0: "replicate (?nn * ?nn) (0::double) ! (q * ?nn + p) = 0" if "q < ?nn" "p < ?nn" for q p
    using idx_bound [OF that] by simp
  have z: "?R ?z ?z" by (simp add: same_state_rel_def z0)
  have step: "?R (?bg (min (min BUFBASE na) (na - ib)) ib s) (?bt (min (min BUFBASE na) (na - ib)) ib s')"
    if "ib < na" "ib mod min BUFBASE na = 0" "?R s s'" for ib s s'
  proof (rule fold_rel [where R = ?R])
    show "?R s s'" by (rule that(3))
  next
    fix strk and u u' :: "double list \<times> double list"
    assume k: "strk \<in> set [0..<na]" and r: "?R u u'"
    obtain g1 g2 t1 t2 where u: "u = (g1, g2)" "u' = (t1, t2)"
      by (cases u, cases u') blast
    have ne: "csum_ms0 ket (min (min BUFBASE na) (na - ib)) strk ib norb na nlink ?cl \<noteq> CSUMTHR"
      using no_block_at_thresholdD [OF assms that(1,2)] k by simp
    show "?R (case u of (pdm1, pdm2) \<Rightarrow>
                FCIrdm12kern_ms0 pdm1 pdm2 ket ket (min (min BUFBASE na) (na - ib)) strk ib
                  norb na na nlink nlink ?cl ?cl)
             (case u' of (pdm1, pdm2) \<Rightarrow>
                FCItdm12kern_ms0 pdm1 pdm2 ket ket (min (min BUFBASE na) (na - ib)) strk ib
                  norb na na nlink nlink ?cl ?cl)"
      using same_state_kernel_step [OF _ ne, of g1 g2 t1 t2 na nlink ?cl] r
      by (simp add: u)
  qed
  have blocks: "?R (drv_blocks ?bg na 0 ?z) (drv_blocks ?bt na 0 ?z)"
    by (rule drv_blocks_rel [where R = ?R]) (use step z in simp_all)
  obtain g1 g2 where g: "drv_blocks ?bg na 0 ?z = (g1, g2)" by (cases "drv_blocks ?bg na 0 ?z")
  obtain t1 t2 where t: "drv_blocks ?bt na 0 ?z = (t1, t2)" by (cases "drv_blocks ?bt na 0 ?z")
  have R: "?R (g1, g2) (t1, t2)" using blocks g t by simp
  then have len: "length g1 = ?nn" "length t1 = ?nn" "length g2 = ?nn * ?nn" "length t2 = ?nn * ?nn"
    by (simp_all add: same_state_rel_def)
  have "FCIrdm12_drv FCIrdm12kern_ms0 ket ket norb na na nlink nlink link_index link_index 0 = (g1, g2)"
    using g len by (simp add: FCIrdm12_drv_def Let_def reduce_into_zero)
  moreover have "FCIrdm12_drv FCItdm12kern_ms0 ket ket norb na na nlink nlink link_index link_index 0 = (t1, t2)"
    using t len by (simp add: FCIrdm12_drv_def Let_def reduce_into_zero)
  ultimately show ?thesis using R by simp
qed

section \<open>The trace of the direct 1-RDM builders\<close>

lemma fold_measure:
  "(\<And>x s. x \<in> set xs \<Longrightarrow> P s \<Longrightarrow> P (f x s) \<and> T (f x s) = T s + h x) \<Longrightarrow> P s \<Longrightarrow>
   P (fold f xs s) \<and> T (fold f xs s) = T s + (\<Sum>x\<leftarrow>xs. h x :: real)"
proof (induction xs arbitrary: s)
  case Nil
  then show ?case by simp
next
  case (Cons x xs)
  have a: "P (f x s)" "T (f x s) = T s + h x" using Cons.prems by simp_all
  have "P (fold f xs (f x s)) \<and> T (fold f xs (f x s)) = T (f x s) + (\<Sum>x\<leftarrow>xs. h x)"
    by (rule Cons.IH) (use Cons.prems(1) a(1) in simp_all)
  then show ?case using a by simp
qed

lemma sum_list_upt_delta:
  "a < n \<Longrightarrow> (\<Sum>p\<leftarrow>[0..<n]. if p = a then v else g p) = (\<Sum>p\<leftarrow>[0..<n]. g p) + (v - g a :: real)"
proof -
  assume a: "a < n"
  have "(\<Sum>p\<leftarrow>[0..<n]. if p = a then v else g p) = (\<Sum>p = 0..<n. if p = a then v else g p)"
    by (simp add: interv_sum_list_conv_sum_set_nat)
  also have "\<dots> = (\<Sum>p = 0..<n. g p + (if p = a then v - g a else 0))"
    by (rule sum.cong) auto
  also have "\<dots> = (\<Sum>p = 0..<n. g p) + (\<Sum>p = 0..<n. if p = a then v - g a else 0)"
    by (simp add: sum.distrib)
  also have "(\<Sum>p = 0..<n. if p = a then v - g a else 0) = v - g a"
    using a by simp
  finally show ?thesis by (simp add: interv_sum_list_conv_sum_set_nat)
qed

lemma trace_update:
  assumes "length r = norb * norb" "a < norb" "i < norb"
  shows "trace norb (r[a * norb + i := v])
         = trace norb r + (if a = i then v - r ! (a * norb + i) else 0)"
proof -
  have nth: "r[a * norb + i := v] ! (p * norb + p)
      = (if p = a \<and> a = i then v else r ! (p * norb + p))" if "p < norb" for p
  proof -
    have "a * norb + i < length r" using idx_bound [OF assms(2,3)] assms(1) by simp
    moreover have "(a * norb + i = p * norb + p) = (p = a \<and> a = i)"
      using idx_inj [OF assms(3) that, of a p] by auto
    ultimately show ?thesis by (simp add: nth_list_update)
  qed
  have "trace norb (r[a * norb + i := v])
      = (\<Sum>p\<leftarrow>[0..<norb]. if p = a \<and> a = i then v else r ! (p * norb + p))"
    unfolding trace_def by (rule arg_cong [where f = sum_list], rule map_cong) (simp_all add: nth)
  also have "\<dots> = trace norb r + (if a = i then v - r ! (a * norb + i) else 0)"
  proof (cases "a = i")
    case True
    then show ?thesis
      using sum_list_upt_delta [OF assms(2), of v "\<lambda>p. r ! (p * norb + p)"]
      by (simp add: trace_def)
  next
    case False
    then show ?thesis by (simp add: trace_def)
  qed
  finally show ?thesis .
qed

lemma trace_symmetrize:
  assumes "length r = norb * norb"
  shows "trace norb (symmetrize_loop norb r) = trace norb r"
  unfolding trace_def
  by (rule arg_cong [where f = sum_list], rule map_cong)
     (simp_all add: symmetrize_loop_nth [OF assms])

lemma sum_list_count:
  "(\<Sum>x\<leftarrow>xs. if Q x then c else 0) = of_nat (length (filter Q xs)) * (c :: real)"
  by (induction xs) (simp_all add: algebra_simps)

lemma sum_list_blocks:
  "(\<Sum>s\<leftarrow>[0..<na]. \<Sum>k\<leftarrow>[0..<nb]. g (s * nb + k)) = (\<Sum>idx\<leftarrow>[0..<na * nb]. g idx :: real)"
proof (induction na)
  case 0
  then show ?case by simp
next
  case (Suc na)
  have "(\<Sum>idx\<leftarrow>[0..<Suc na * nb]. g idx) = (\<Sum>idx = 0..<na * nb + nb. g idx)"
    by (simp add: interv_sum_list_conv_sum_set_nat add.commute)
  also have "\<dots> = (\<Sum>idx = 0..<na * nb. g idx) + (\<Sum>idx = na * nb..<na * nb + nb. g idx)"
    by (rule sum.atLeastLessThan_concat [symmetric]) simp_all
  also have "(\<Sum>idx = na * nb..<na * nb + nb. g idx) = (\<Sum>k = 0..<nb. g (na * nb + k))"
    using sum.shift_bounds_nat_ivl [of g 0 "na * nb" nb] by (simp add: add.commute)
  finally show ?case
    using Suc by (simp add: interv_sum_list_conv_sum_set_nat)
qed

lemma unat_ucast_32_8: "0 \<le> sint (x :: 32 word) \<Longrightarrow> sint x < 256 \<Longrightarrow> unat (ucast x :: 8 word) = nat (sint x)"
  using uint_ucast_roundtrip [of x] by (simp add: unat_eq_nat_uint)

lemma unat_32_sint: "0 \<le> sint (x :: 32 word) \<Longrightarrow> unat x = nat (sint x)"
  using uint_32_roundtrip [of x] sint_lt_32 [of x] by (simp add: unat_eq_nat_uint)

lemma sint_ucast_32_8_small: "- 128 \<le> sint (x :: 32 word) \<Longrightarrow> sint x < 128 \<Longrightarrow> sint (ucast x :: 8 word) = sint x"
  using sint_ucast_roundtrip [of x] by simp

lemma valid_links_record:
  assumes v: "valid_links nelec norb nstr nlink link_index" and k: "k < nstr" and j: "j < nlink"
    and r: "r = compress_link (malloc (nlink * nstr)) link_index norb nstr nlink ! (k * nlink + j)"
  shows "unat (EXTRACT_A r) < norb" and "unat (EXTRACT_I r) < norb"
    and "(unat (EXTRACT_A r) = unat (EXTRACT_I r))
          = (sint (link_index ! ((k * nlink + j) * 4 + 0)) = sint (link_index ! ((k * nlink + j) * 4 + 1)))"
    and "unat (EXTRACT_A r) = unat (EXTRACT_I r) \<Longrightarrow> unat (EXTRACT_ADDR r) = k"
    and "unat (EXTRACT_A r) = unat (EXTRACT_I r) \<Longrightarrow> 0 < sint (EXTRACT_SIGN r)"
proof -
  define qa where "qa = sint (link_index ! ((k * nlink + j) * 4 + 0))"
  define qi where "qi = sint (link_index ! ((k * nlink + j) * 4 + 1))"
  define qd where "qd = sint (link_index ! ((k * nlink + j) * 4 + 2))"
  define qs where "qs = sint (link_index ! ((k * nlink + j) * 4 + 3))"
  have n: "norb \<le> 256" using v by (simp add: valid_links_def)
  have "list_all (\<lambda>j.
            (let a = sint (link_index ! ((k * nlink + j) * 4 + 0));
                 i = sint (link_index ! ((k * nlink + j) * 4 + 1));
                 d = sint (link_index ! ((k * nlink + j) * 4 + 2));
                 s = sint (link_index ! ((k * nlink + j) * 4 + 3))
             in 0 \<le> a \<and> a < int norb \<and> 0 \<le> i \<and> i < int norb \<and> 0 \<le> d \<and> d < int nstr \<and>
                (s = 1 \<or> s = - 1) \<and> (a = i \<longrightarrow> d = int k \<and> s = 1)))
           [0..<nlink]"
    using v k unfolding valid_links_def list_all_iff by auto
  then have q: "0 \<le> qa" "qa < int norb" "0 \<le> qi" "qi < int norb" "0 \<le> qd" "qd < int nstr"
      "qs = 1 \<or> qs = - 1" "qa = qi \<longrightarrow> qd = int k \<and> qs = 1"
    using j unfolding list_all_iff Let_def qa_def qi_def qd_def qs_def by auto
  have f: "EXTRACT_A r = ucast (link_index ! ((k * nlink + j) * 4 + 0))"
    "EXTRACT_I r = ucast (link_index ! ((k * nlink + j) * 4 + 1))"
    "EXTRACT_ADDR r = link_index ! ((k * nlink + j) * 4 + 2)"
    "EXTRACT_SIGN r = ucast (link_index ! ((k * nlink + j) * 4 + 3))"
    unfolding r EXTRACT_A_def EXTRACT_I_def EXTRACT_ADDR_def EXTRACT_SIGN_def
    using compress_link_nth [of nstr nlink "malloc (nlink * nstr)" k j link_index norb] k j
    by (simp_all add: mult.commute)
  have a: "unat (EXTRACT_A r) = nat qa"
    unfolding f qa_def using q(1,2) n unfolding qa_def by (intro unat_ucast_32_8) linarith+
  have i: "unat (EXTRACT_I r) = nat qi"
    unfolding f qi_def using q(3,4) n unfolding qi_def by (intro unat_ucast_32_8) linarith+
  show "unat (EXTRACT_A r) < norb" using a q(1,2) by linarith
  show "unat (EXTRACT_I r) < norb" using i q(3,4) by linarith
  have e: "(unat (EXTRACT_A r) = unat (EXTRACT_I r)) = (qa = qi)"
    using a i q(1,3) by auto
  then show "(unat (EXTRACT_A r) = unat (EXTRACT_I r))
          = (sint (link_index ! ((k * nlink + j) * 4 + 0)) = sint (link_index ! ((k * nlink + j) * 4 + 1)))"
    unfolding qa_def qi_def .
  show "unat (EXTRACT_ADDR r) = k" if "unat (EXTRACT_A r) = unat (EXTRACT_I r)"
  proof -
    have "qd = int k" using that e q(8) by simp
    moreover have "unat (EXTRACT_ADDR r) = nat qd"
      unfolding f qd_def using q(5) unfolding qd_def by (rule unat_32_sint)
    ultimately show ?thesis by simp
  qed
  show "0 < sint (EXTRACT_SIGN r)" if "unat (EXTRACT_A r) = unat (EXTRACT_I r)"
  proof -
    have s: "qs = 1" using that e q(8) by simp
    have "sint (EXTRACT_SIGN r) = qs"
      unfolding f qs_def using s unfolding qs_def by (intro sint_ucast_32_8_small) simp_all
    then show ?thesis using s by simp
  qed
qed

lemma valid_links_count:
  assumes "valid_links nelec norb nstr nlink link_index" and "k < nstr"
  shows "length (filter (\<lambda>j. sint (link_index ! ((k * nlink + j) * 4 + 0))
                              = sint (link_index ! ((k * nlink + j) * 4 + 1))) [0..<nlink]) = nelec"
  using assms by (simp add: valid_links_def list_all_iff)

lemma fold_add_at:
  assumes "length r = norb * norb" "a < norb" "i < norb"
  shows "length (fold (\<lambda>k r. r[a * norb + i := r ! (a * norb + i) + c k]) ks r) = norb * norb \<and>
         trace norb (fold (\<lambda>k r. r[a * norb + i := r ! (a * norb + i) + c k]) ks r)
           = trace norb r + (if a = i then (\<Sum>k\<leftarrow>ks. c k) else 0)"
proof -
  have "length (fold (\<lambda>k r. r[a * norb + i := r ! (a * norb + i) + c k]) ks r) = norb * norb \<and>
         trace norb (fold (\<lambda>k r. r[a * norb + i := r ! (a * norb + i) + c k]) ks r)
           = trace norb r + (\<Sum>k\<leftarrow>ks. if a = i then c k else 0)"
    by (rule fold_measure [where P = "\<lambda>r. length r = norb * norb"])
       (simp_all add: assms trace_update)
  then show ?thesis by (cases "a = i") simp_all
qed

lemma fold_sub_at:
  assumes "length r = norb * norb" "a < norb" "i < norb"
  shows "length (fold (\<lambda>k r. r[a * norb + i := r ! (a * norb + i) - c k]) ks r) = norb * norb \<and>
         trace norb (fold (\<lambda>k r. r[a * norb + i := r ! (a * norb + i) - c k]) ks r)
           = trace norb r - (if a = i then (\<Sum>k\<leftarrow>ks. c k) else 0)"
proof -
  have "length (fold (\<lambda>k r. r[a * norb + i := r ! (a * norb + i) - c k]) ks r) = norb * norb \<and>
         trace norb (fold (\<lambda>k r. r[a * norb + i := r ! (a * norb + i) - c k]) ks r)
           = trace norb r + (\<Sum>k\<leftarrow>ks. if a = i then - c k else 0)"
    by (rule fold_measure [where P = "\<lambda>r. length r = norb * norb"])
       (simp_all add: assms trace_update)
  then show ?thesis by (cases "a = i") (simp_all add: uminus_sum_list_map o_def)
qed

lemma rdm1a_trace:
  assumes v: "valid_links nelec norb na nlinka link_indexa"
    and unit: "(\<Sum>idx\<leftarrow>[0..<na * nb]. ciket ! idx * ciket ! idx) = 1"
  shows "trace norb (FCImake_rdm1a cibra ciket norb na nb nlinka nlinkb link_indexa link_indexb)
         = of_nat nelec"
proof -
  let ?nn = "norb * norb"
  let ?cl = "compress_link (malloc (nlinka * na)) link_indexa norb na nlinka"
  let ?A = "\<lambda>str0 j. unat (EXTRACT_A (?cl ! (str0 * nlinka + j)))"
  let ?I = "\<lambda>str0 j. unat (EXTRACT_I (?cl ! (str0 * nlinka + j)))"
  let ?D = "\<lambda>str0 j. unat (EXTRACT_ADDR (?cl ! (str0 * nlinka + j)))"
  let ?Sg = "\<lambda>str0 j. sint (EXTRACT_SIGN (?cl ! (str0 * nlinka + j)))"
  let ?c = "\<lambda>str0 j k. ciket ! (str0 * nb + k) * ciket ! (?D str0 j * nb + k)"
  let ?jb = "\<lambda>str0 j rdm1.
      if ?I str0 j \<le> ?A str0 j
      then if 0 < ?Sg str0 j
           then fold (\<lambda>k rdm1. rdm1[?A str0 j * norb + ?I str0 j :=
                        rdm1 ! (?A str0 j * norb + ?I str0 j) + ?c str0 j k]) [0..<nb] rdm1
           else fold (\<lambda>k rdm1. rdm1[?A str0 j * norb + ?I str0 j :=
                        rdm1 ! (?A str0 j * norb + ?I str0 j) - ?c str0 j k]) [0..<nb] rdm1
      else rdm1"
  let ?pre = "fold (\<lambda>str0. fold (?jb str0) [0..<nlinka]) [0..<na] (replicate ?nn (0::double))"
  let ?S = "\<lambda>str0. \<Sum>k\<leftarrow>[0..<nb]. ciket ! (str0 * nb + k) * ciket ! (str0 * nb + k)"
  let ?diag = "\<lambda>str0 j. sint (link_indexa ! ((str0 * nlinka + j) * 4 + 0))
                        = sint (link_indexa ! ((str0 * nlinka + j) * 4 + 1))"
  have unfold: "FCImake_rdm1a cibra ciket norb na nb nlinka nlinkb link_indexa link_indexb
      = symmetrize_loop norb ?pre"
    unfolding FCImake_rdm1a_def Let_def ptr_get_def ptr_add_def ptr_at_def fst_conv snd_conv
    by (simp only: add_0)
  have jstep: "length (?jb str0 j r) = ?nn \<and>
      trace norb (?jb str0 j r) = trace norb r + (if ?diag str0 j then ?S str0 else 0)"
    if "str0 \<in> set [0..<na]" "j \<in> set [0..<nlinka]" "length r = ?nn" for str0 j r
  proof -
    have s: "str0 < na" and j: "j < nlinka" using that by simp_all
    note rec = valid_links_record [OF v s j refl]
    show ?thesis
    proof (cases "?A str0 j = ?I str0 j")
      case True
      have d: "?D str0 j = str0" and sg: "0 < ?Sg str0 j" and dg: "?diag str0 j"
        using rec(3,4,5) True by simp_all
      show ?thesis
        using fold_add_at [OF that(3) rec(1) rec(2), of "?c str0 j" "[0..<nb]"] True d sg dg
        by simp
    next
      case False
      then have dg: "\<not> ?diag str0 j" using rec(3) by simp
      show ?thesis
        using fold_add_at [OF that(3) rec(1) rec(2), of "?c str0 j" "[0..<nb]"]
          fold_sub_at [OF that(3) rec(1) rec(2), of "?c str0 j" "[0..<nb]"] False dg that(3)
        by simp
    qed
  qed
  have sstep: "length (fold (?jb str0) [0..<nlinka] r) = ?nn \<and>
      trace norb (fold (?jb str0) [0..<nlinka] r) = trace norb r + of_nat nelec * ?S str0"
    if "str0 \<in> set [0..<na]" "length r = ?nn" for str0 r
  proof -
    have "length (fold (?jb str0) [0..<nlinka] r) = ?nn \<and>
      trace norb (fold (?jb str0) [0..<nlinka] r)
        = trace norb r + (\<Sum>j\<leftarrow>[0..<nlinka]. if ?diag str0 j then ?S str0 else 0)"
      by (rule fold_measure [where P = "\<lambda>r. length r = ?nn"]) (use jstep that in blast)+
    moreover have "(\<Sum>j\<leftarrow>[0..<nlinka]. if ?diag str0 j then ?S str0 else 0) = of_nat nelec * ?S str0"
      using valid_links_count [OF v, of str0] that(1) by (simp add: sum_list_count)
    ultimately show ?thesis by simp
  qed
  have "length ?pre = ?nn \<and>
      trace norb ?pre = trace norb (replicate ?nn 0) + (\<Sum>str0\<leftarrow>[0..<na]. of_nat nelec * ?S str0)"
    by (rule fold_measure [where P = "\<lambda>r. length r = ?nn"]) (use sstep in simp_all)
  moreover have "trace norb (replicate ?nn 0) = 0"
  proof -
    have z: "replicate ?nn (0::double) ! (p * norb + p) = 0" if "p < norb" for p
      using idx_bound [OF that that] by simp
    have "trace norb (replicate ?nn 0) = (\<Sum>p\<leftarrow>[0..<norb]. 0)"
      unfolding trace_def
      by (rule arg_cong [where f = sum_list], rule map_cong) (simp_all add: z)
    then show ?thesis by simp
  qed
  moreover have "(\<Sum>str0\<leftarrow>[0..<na]. of_nat nelec * ?S str0) = of_nat nelec"
    using sum_list_blocks [where g = "\<lambda>idx. ciket ! idx * ciket ! idx" and na = na and nb = nb] unit
    by (simp add: sum_list_const_mult)
  ultimately show ?thesis
    by (simp add: unfold trace_symmetrize)
qed

lemma rdm1b_trace:
  assumes v: "valid_links nelec norb nb nlinkb link_indexb"
    and unit: "(\<Sum>idx\<leftarrow>[0..<na * nb]. ciket ! idx * ciket ! idx) = 1"
  shows "trace norb (FCImake_rdm1b cibra ciket norb na nb nlinka nlinkb link_indexa link_indexb)
         = of_nat nelec"
proof -
  let ?nn = "norb * norb"
  let ?cl = "compress_link (malloc (nlinkb * nb)) link_indexb norb nb nlinkb"
  let ?A = "\<lambda>k j. unat (EXTRACT_A (?cl ! (k * nlinkb + j)))"
  let ?I = "\<lambda>k j. unat (EXTRACT_I (?cl ! (k * nlinkb + j)))"
  let ?D = "\<lambda>k j. unat (EXTRACT_ADDR (?cl ! (k * nlinkb + j)))"
  let ?Sg = "\<lambda>k j. sint (EXTRACT_SIGN (?cl ! (k * nlinkb + j)))"
  let ?c = "\<lambda>str0 k j. ciket ! (str0 * nb + ?D k j) * ciket ! (str0 * nb + k)"
  let ?jb = "\<lambda>str0 k j rdm1.
      if ?I k j \<le> ?A k j
      then if 0 < ?Sg k j
           then rdm1[?A k j * norb + ?I k j := rdm1 ! (?A k j * norb + ?I k j) + ?c str0 k j]
           else rdm1[?A k j * norb + ?I k j := rdm1 ! (?A k j * norb + ?I k j) - ?c str0 k j]
      else rdm1"
  let ?pre = "fold (\<lambda>str0. fold (\<lambda>k. fold (?jb str0 k) [0..<nlinkb]) [0..<nb]) [0..<na]
                (replicate ?nn (0::double))"
  let ?g = "\<lambda>idx. ciket ! idx * ciket ! idx"
  let ?diag = "\<lambda>k j. sint (link_indexb ! ((k * nlinkb + j) * 4 + 0))
                     = sint (link_indexb ! ((k * nlinkb + j) * 4 + 1))"
  have unfold: "FCImake_rdm1b cibra ciket norb na nb nlinka nlinkb link_indexa link_indexb
      = symmetrize_loop norb ?pre"
    unfolding FCImake_rdm1b_def Let_def ptr_get_def ptr_add_def ptr_at_def fst_conv snd_conv
    by (simp only: add_0)
  have jstep: "length (?jb str0 k j r) = ?nn \<and>
      trace norb (?jb str0 k j r) = trace norb r + (if ?diag k j then ?g (str0 * nb + k) else 0)"
    if "k \<in> set [0..<nb]" "j \<in> set [0..<nlinkb]" "length r = ?nn" for str0 k j r
  proof -
    have k: "k < nb" and j: "j < nlinkb" using that by simp_all
    note rec = valid_links_record [OF v k j refl]
    show ?thesis
    proof (cases "?A k j = ?I k j")
      case True
      have d: "?D k j = k" and sg: "0 < ?Sg k j" and dg: "?diag k j"
        using rec(3,4,5) True by simp_all
      show ?thesis
        using trace_update [OF that(3) rec(1) rec(2)] True d sg dg that(3)
        by simp
    next
      case False
      then have dg: "\<not> ?diag k j" using rec(3) by simp
      show ?thesis
        using trace_update [OF that(3) rec(1) rec(2)] False dg that(3)
        by simp
    qed
  qed
  have kstep: "length (fold (?jb str0 k) [0..<nlinkb] r) = ?nn \<and>
      trace norb (fold (?jb str0 k) [0..<nlinkb] r)
        = trace norb r + of_nat nelec * ?g (str0 * nb + k)"
    if "k \<in> set [0..<nb]" "length r = ?nn" for str0 k r
  proof -
    have "length (fold (?jb str0 k) [0..<nlinkb] r) = ?nn \<and>
      trace norb (fold (?jb str0 k) [0..<nlinkb] r)
        = trace norb r + (\<Sum>j\<leftarrow>[0..<nlinkb]. if ?diag k j then ?g (str0 * nb + k) else 0)"
      by (rule fold_measure [where P = "\<lambda>r. length r = ?nn"]) (use jstep that in blast)+
    moreover have "(\<Sum>j\<leftarrow>[0..<nlinkb]. if ?diag k j then ?g (str0 * nb + k) else 0)
        = of_nat nelec * ?g (str0 * nb + k)"
      using valid_links_count [OF v, of k] that(1) by (simp add: sum_list_count)
    ultimately show ?thesis by simp
  qed
  have sstep: "length (fold (\<lambda>k. fold (?jb str0 k) [0..<nlinkb]) [0..<nb] r) = ?nn \<and>
      trace norb (fold (\<lambda>k. fold (?jb str0 k) [0..<nlinkb]) [0..<nb] r)
        = trace norb r + (\<Sum>k\<leftarrow>[0..<nb]. of_nat nelec * ?g (str0 * nb + k))"
    if "length r = ?nn" for str0 r
    by (rule fold_measure [where P = "\<lambda>r. length r = ?nn"]) (use kstep that in simp_all)
  have "length ?pre = ?nn \<and>
      trace norb ?pre = trace norb (replicate ?nn 0)
        + (\<Sum>str0\<leftarrow>[0..<na]. \<Sum>k\<leftarrow>[0..<nb]. of_nat nelec * ?g (str0 * nb + k))"
    by (rule fold_measure [where P = "\<lambda>r. length r = ?nn"]) (use sstep in simp_all)
  moreover have "trace norb (replicate ?nn 0) = 0"
  proof -
    have z: "replicate ?nn (0::double) ! (p * norb + p) = 0" if "p < norb" for p
      using idx_bound [OF that that] by simp
    have "trace norb (replicate ?nn 0) = (\<Sum>p\<leftarrow>[0..<norb]. 0)"
      unfolding trace_def
      by (rule arg_cong [where f = sum_list], rule map_cong) (simp_all add: z)
    then show ?thesis by simp
  qed
  moreover have "(\<Sum>str0\<leftarrow>[0..<na]. \<Sum>k\<leftarrow>[0..<nb]. of_nat nelec * ?g (str0 * nb + k)) = of_nat nelec"
    using sum_list_blocks [where g = "\<lambda>idx. of_nat nelec * ?g idx" and na = na and nb = nb] unit
    by (simp add: sum_list_const_mult)
  ultimately show ?thesis
    by (simp add: unfold trace_symmetrize)
qed

section \<open>Symmetry of the driver's result\<close>

text \<open>
  Claim C2. When the driver runs with \<open>symm\<close> nonzero, the returned 1-RDM is symmetric,
  \<open>rdm1[i][j] = rdm1[j][i]\<close> for all \<open>i, j < norb\<close>, and the returned 2-RDM, as an
  \<open>nnorb \<times> nnorb\<close> matrix, satisfies \<open>rdm2[p][q] = rdm2[q][p]\<close>. This holds for every
  kernel that keeps the sizes of its accumulators, whatever it computes.
\<close>

theorem drv_symm_result_symmetric:
  assumes "symm \<noteq> 0" and "keeps_sizes dm12kernel"
    and "FCIrdm12_drv dm12kernel bra ket norb na nb nlinka nlinkb link_indexa link_indexb symm
           = (rdm1, rdm2)"
  shows "(\<forall>i<norb. \<forall>j<norb. rdm1 ! (i * norb + j) = rdm1 ! (j * norb + i)) \<and>
         (\<forall>p<norb * norb. \<forall>q<norb * norb.
             rdm2 ! (p * (norb * norb) + q) = rdm2 ! (q * (norb * norb) + p))"
proof -
  let ?acc = "FCIrdm12_drv dm12kernel bra ket norb na nb nlinka nlinkb link_indexa link_indexb 0"
  have r1: "rdm1 = symmetrize_loop norb (fst ?acc)"
    and r2: "rdm2 = symmetrize_loop (norb * norb) (snd ?acc)"
    using drv_symm_eq [OF assms(1), of dm12kernel bra ket norb na nb nlinka nlinkb link_indexa link_indexb]
      assms(3) by simp_all
  have l1: "length (fst ?acc) = norb * norb"
    and l2: "length (snd ?acc) = norb * norb * (norb * norb)"
    using drv_sizes [OF assms(2)] by simp_all
  have "rdm1 ! (i * norb + j) = rdm1 ! (j * norb + i)" if "i < norb" "j < norb" for i j
    using that by (simp add: r1 symmetrize_loop_nth [OF l1] max.commute min.commute)
  moreover have "rdm2 ! (p * (norb * norb) + q) = rdm2 ! (q * (norb * norb) + p)"
    if "p < norb * norb" "q < norb * norb" for p q
    using that by (simp add: r2 symmetrize_loop_nth [OF l2] max.commute min.commute)
  ultimately show ?thesis by blast
qed

theorem drv_symm_result_symmetric_witness:
  "(1::int) \<noteq> 0 \<and> keeps_sizes FCIrdm12kern_ms0 \<and>
   FCIrdm12_drv FCIrdm12kern_ms0 [0, 1, - 1, 0] [0, 1, - 1, 0] 2 2 2 2 2 link_2orb link_2orb 1
      = ([2, 0, 0, 2], [2, 0, 0, 2, 0, 0, 0, 0, 0, 0, 0, 0, 2, 0, 0, 2]) \<and>
   [2, 0, 0, 2 :: double] ! (0 * 2 + 1) = [2, 0, 0, 2] ! (1 * 2 + 0) \<and>
   [2, 0, 0, 2, 0, 0, 0, 0, 0, 0, 0, 0, 2, 0, 0, 2 :: double] ! (0 * (2 * 2) + 3)
     = [2, 0, 0, 2, 0, 0, 0, 0, 0, 0, 0, 0, 2, 0, 0, 2] ! (3 * (2 * 2) + 0)"
proof -
  have e: "FCIrdm12_drv FCIrdm12kern_ms0 [0, 1, - 1, 0] [0, 1, - 1, 0] 2 2 2 2 2 link_2orb link_2orb 1
      = ([2, 0, 0, 2], [2, 0, 0, 2, 0, 0, 0, 0, 0, 0, 0, 0, 2, 0, 0, 2])"
    by code_simp
  have s: "(1::int) \<noteq> 0" by simp
  note t = drv_symm_result_symmetric [OF s keeps_sizes_ms0 e]
  from t have "[2, 0, 0, 2 :: double] ! (0 * 2 + 1) = [2, 0, 0, 2] ! (1 * 2 + 0)"
    by (elim conjE allE [of _ 0] allE [of _ 1]) simp
  moreover from t have "[2, 0, 0, 2, 0, 0, 0, 0, 0, 0, 0, 0, 2, 0, 0, 2 :: double] ! (0 * (2 * 2) + 3)
     = [2, 0, 0, 2, 0, 0, 0, 0, 0, 0, 0, 0, 2, 0, 0, 2] ! (3 * (2 * 2) + 0)"
    by simp
  ultimately show ?thesis using e s keeps_sizes_ms0 by blast
qed

section \<open>Direction of the symmetrization pass\<close>

text \<open>
  Claim C3 says that the final pass copies the row-major upper triangle (\<open>rdm[i][j]\<close>
  with \<open>i < j\<close>) into the lower one, so that the upper entries accumulated during the
  run are the ones kept. The loop is \<open>rdm[j*n+i] = rdm[i*n+j]\<close> for \<open>j < i\<close>: it reads
  the row-major lower triangle and overwrites the upper one. (\<open>dsyrk\<close> with \<open>uplo = 'U'\<close>
  fills the upper triangle of the column-major matrix, which is the lower triangle of the
  row-major view.) In the two-orbital scenario with \<open>ci = [0, 1, -1, 0]\<close> the accumulated
  entry \<open>rdm2[0][3] = 0\<close> is replaced by \<open>rdm2[3][0] = 2\<close>.
\<close>

theorem drv_symm_upper_not_preserved_counterexample:
  "snd (FCIrdm12_drv FCIrdm12kern_ms0 [0, 1, - 1, 0] [0, 1, - 1, 0] 2 2 2 2 2 link_2orb link_2orb 0)
      ! (0 * 4 + 3) = 0 \<and>
   snd (FCIrdm12_drv FCIrdm12kern_ms0 [0, 1, - 1, 0] [0, 1, - 1, 0] 2 2 2 2 2 link_2orb link_2orb 0)
      ! (3 * 4 + 0) = 2 \<and>
   snd (FCIrdm12_drv FCIrdm12kern_ms0 [0, 1, - 1, 0] [0, 1, - 1, 0] 2 2 2 2 2 link_2orb link_2orb 1)
      ! (0 * 4 + 3) = 2 \<and>
   snd (FCIrdm12_drv FCIrdm12kern_ms0 [0, 1, - 1, 0] [0, 1, - 1, 0] 2 2 2 2 2 link_2orb link_2orb 1)
      ! (3 * 4 + 0) = 2"
  by code_simp

text \<open>
  Claim C3, amended. With \<open>symm\<close> nonzero the driver returns, at every position
  \<open>[i][j]\<close>, the entry that the run accumulated at \<open>[max i j][min i j]\<close>: the row-major
  lower triangle (with the diagonal) is kept and mirrored into the upper triangle, for
  \<open>rdm1\<close> and for \<open>rdm2\<close>. The accumulated matrices are what the driver returns with
  \<open>symm = 0\<close>.
\<close>

theorem drv_symm_mirrors_lower:
  assumes "symm \<noteq> 0" and "keeps_sizes dm12kernel"
    and "FCIrdm12_drv dm12kernel bra ket norb na nb nlinka nlinkb link_indexa link_indexb 0
           = (acc1, acc2)"
    and "FCIrdm12_drv dm12kernel bra ket norb na nb nlinka nlinkb link_indexa link_indexb symm
           = (rdm1, rdm2)"
  shows "(\<forall>i<norb. \<forall>j<norb. rdm1 ! (i * norb + j) = acc1 ! (max i j * norb + min i j)) \<and>
         (\<forall>p<norb * norb. \<forall>q<norb * norb.
             rdm2 ! (p * (norb * norb) + q) = acc2 ! (max p q * (norb * norb) + min p q))"
proof -
  have r1: "rdm1 = symmetrize_loop norb acc1"
    and r2: "rdm2 = symmetrize_loop (norb * norb) acc2"
    using drv_symm_eq [OF assms(1), of dm12kernel bra ket norb na nb nlinka nlinkb link_indexa link_indexb]
      assms(3,4) by simp_all
  have l1: "length acc1 = norb * norb"
    and l2: "length acc2 = norb * norb * (norb * norb)"
    using drv_sizes [OF assms(2), of bra ket norb na nb nlinka nlinkb link_indexa link_indexb] assms(3)
    by simp_all
  show ?thesis
    by (simp add: r1 r2 symmetrize_loop_nth [OF l1] symmetrize_loop_nth [OF l2])
qed

theorem drv_symm_mirrors_lower_witness:
  "(1::int) \<noteq> 0 \<and> keeps_sizes FCIrdm12kern_ms0 \<and>
   FCIrdm12_drv FCIrdm12kern_ms0 [1, 2, 3, 4] [1, 2, 3, 4] 2 2 2 2 2 link_2orb link_2orb 0
      = ([15, - 25, - 25, 45],
         [17, 0, 0, 0,  - 30, 57, 0, 0,  - 5, 8, 27, 0,  13, - 20, - 45, 77]) \<and>
   FCIrdm12_drv FCIrdm12kern_ms0 [1, 2, 3, 4] [1, 2, 3, 4] 2 2 2 2 2 link_2orb link_2orb 1
      = ([15, - 25, - 25, 45],
         [17, - 30, - 5, 13,  - 30, 57, 8, - 20,  - 5, 8, 27, - 45,  13, - 20, - 45, 77]) \<and>
   [17, - 30, - 5, 13,  - 30, 57, 8, - 20,  - 5, 8, 27, - 45,  13, - 20, - 45, 77 :: double] ! (1 * (2 * 2) + 3)
     = [17, 0, 0, 0,  - 30, 57, 0, 0,  - 5, 8, 27, 0,  13, - 20, - 45, 77] ! (max 1 3 * (2 * 2) + min 1 3)"
proof -
  have e0: "FCIrdm12_drv FCIrdm12kern_ms0 [1, 2, 3, 4] [1, 2, 3, 4] 2 2 2 2 2 link_2orb link_2orb 0
      = ([15, - 25, - 25, 45],
         [17, 0, 0, 0,  - 30, 57, 0, 0,  - 5, 8, 27, 0,  13, - 20, - 45, 77])"
    by code_simp
  have e1: "FCIrdm12_drv FCIrdm12kern_ms0 [1, 2, 3, 4] [1, 2, 3, 4] 2 2 2 2 2 link_2orb link_2orb 1
      = ([15, - 25, - 25, 45],
         [17, - 30, - 5, 13,  - 30, 57, 8, - 20,  - 5, 8, 27, - 45,  13, - 20, - 45, 77])"
    by code_simp
  have s: "(1::int) \<noteq> 0" by simp
  note t = drv_symm_mirrors_lower [OF s keeps_sizes_ms0 e0 e1]
  from t have "[17, - 30, - 5, 13,  - 30, 57, 8, - 20,  - 5, 8, 27, - 45,  13, - 20, - 45, 77 :: double] ! (1 * (2 * 2) + 3)
     = [17, 0, 0, 0,  - 30, 57, 0, 0,  - 5, 8, 27, 0,  13, - 20, - 45, 77] ! (max 1 3 * (2 * 2) + min 1 3)"
    by simp
  then show ?thesis using e0 e1 s keeps_sizes_ms0 by blast
qed

section \<open>The two-orbital single-determinant scenario\<close>

text \<open>
  Claim C1 expects, for \<open>norb = 2\<close>, \<open>na = nb = 2\<close>, the link table \<open>link_2orb\<close> and
  \<open>ci = [1, 0, 0, 0]\<close>, the result \<open>rdm1 = [[1,0],[0,0]]\<close> and \<open>rdm2\<close> zero except
  \<open>rdm2(0,0,0,0) = 1\<close>. The ms=0 kernel adds the beta and the alpha excitations into one
  \<open>T1\<close>, so the build is spin-summed and returns other values.
\<close>

theorem ms0_single_determinant_counterexample:
  "FCImake_rdm12_ms0 [1, 0, 0, 0] [1, 0, 0, 0] 2 2 2 link_2orb
     \<noteq> ([1, 0, 0, 0], [1, 0, 0, 0,  0, 0, 0, 0,  0, 0, 0, 0,  0, 0, 0, 0])"
  by code_simp

text \<open>
  Claim C1, amended. In that scenario the ms=0 build returns \<open>rdm1 = [[2,0],[0,0]]\<close>
  and an \<open>rdm2\<close> whose nonzero entries are \<open>rdm2(0,0,0,0) = 4\<close> and
  \<open>rdm2(1,0,1,0) = 2\<close> (flat indices 0 and 10).
\<close>

theorem ms0_single_determinant:
  "FCImake_rdm12_ms0 [1, 0, 0, 0] [1, 0, 0, 0] 2 2 2 link_2orb
     = ([2, 0, 0, 0], [4, 0, 0, 0,  0, 0, 0, 0,  0, 0, 2, 0,  0, 0, 0, 0])"
  by code_simp

section \<open>The ground-state entry points and their bra argument\<close>

text \<open>
  Claim C9. The ground-state entry points ignore their bra argument: two calls of the
  ms=0 build, of the spin0 build or of a direct symmetric 1-RDM build that differ only in
  \<open>bra\<close> return the same matrices.
\<close>

theorem ground_state_builds_ignore_bra:
  "FCImake_rdm12_ms0 bra ket norb na nlink link_index
     = FCImake_rdm12_ms0 bra' ket norb na nlink link_index \<and>
   FCImake_rdm12_spin0 bra ket norb na nlink link_index
     = FCImake_rdm12_spin0 bra' ket norb na nlink link_index \<and>
   FCImake_rdm1a bra ket norb na nb nlinka nlinkb link_indexa link_indexb
     = FCImake_rdm1a bra' ket norb na nb nlinka nlinkb link_indexa link_indexb \<and>
   FCImake_rdm1b bra ket norb na nb nlinka nlinkb link_indexa link_indexb
     = FCImake_rdm1b bra' ket norb na nb nlinka nlinkb link_indexa link_indexb"
  by (simp add: FCImake_rdm12_ms0_def FCImake_rdm12_spin0_def FCImake_rdm1a_def FCImake_rdm1b_def)

section \<open>What the compactor produces\<close>

text \<open>
  Claim C8. From the flat array of \<open>(a, i, destination, sign)\<close> quadruples, with \<open>nstr\<close>
  strings and \<open>nlink\<close> entries per string, \<open>compress_link\<close> fills an array of
  \<open>nstr * nlink\<close> records grouped by string: record \<open>j\<close> of the group of string \<open>k\<close>
  (at \<open>k * nlink + j\<close>) holds the four fields of quadruple \<open>j\<close> of string \<open>k\<close>, each
  converted to its field type. The result depends on the inputs only, not on what the
  output array held before.
\<close>

theorem compress_link_groups_records:
  assumes "nstr * nlink \<le> length clink" and "k < nstr" and "j < nlink"
  shows "length (compress_link clink link_index norb nstr nlink) = length clink \<and>
         EXTRACT_A (compress_link clink link_index norb nstr nlink ! (k * nlink + j))
           = ucast (link_index ! ((k * nlink + j) * 4 + 0)) \<and>
         EXTRACT_I (compress_link clink link_index norb nstr nlink ! (k * nlink + j))
           = ucast (link_index ! ((k * nlink + j) * 4 + 1)) \<and>
         EXTRACT_ADDR (compress_link clink link_index norb nstr nlink ! (k * nlink + j))
           = link_index ! ((k * nlink + j) * 4 + 2) \<and>
         EXTRACT_SIGN (compress_link clink link_index norb nstr nlink ! (k * nlink + j))
           = ucast (link_index ! ((k * nlink + j) * 4 + 3)) \<and>
         (\<forall>clink'. length clink' = length clink \<longrightarrow>
            compress_link clink' link_index norb nstr nlink ! (k * nlink + j)
              = compress_link clink link_index norb nstr nlink ! (k * nlink + j))"
proof -
  have "compress_link clink' link_index norb nstr nlink ! (k * nlink + j)
          = compress_link clink link_index norb nstr nlink ! (k * nlink + j)"
    if "length clink' = length clink" for clink'
    using that assms compress_link_nth [of nstr nlink clink k j link_index norb]
      compress_link_nth [of nstr nlink clink' k j link_index norb] by simp
  then show ?thesis
    using compress_link_nth [OF assms, of link_index norb]
    by (simp add: EXTRACT_A_def EXTRACT_I_def EXTRACT_ADDR_def EXTRACT_SIGN_def)
qed

theorem compress_link_groups_records_witness:
  "2 * 2 \<le> length (malloc 4 :: LinkT list) \<and> (1::nat) < 2 \<and>
   length (compress_link (malloc 4) link_2orb 2 2 2) = 4 \<and>
   EXTRACT_A (compress_link (malloc 4) link_2orb 2 2 2 ! (1 * 2 + 1)) = 0 \<and>
   EXTRACT_I (compress_link (malloc 4) link_2orb 2 2 2 ! (1 * 2 + 1)) = 1 \<and>
   EXTRACT_ADDR (compress_link (malloc 4) link_2orb 2 2 2 ! (1 * 2 + 1)) = 0 \<and>
   EXTRACT_SIGN (compress_link (malloc 4) link_2orb 2 2 2 ! (1 * 2 + 1)) = - 1"
proof -
  have l: "2 * 2 \<le> length (malloc 4 :: LinkT list)" by (simp add: malloc_def)
  have k: "(1::nat) < 2" by simp
  have m1: "(ucast (- 1 :: 32 word) :: 8 word) = - 1"
    by (rule bit_word_eqI) (simp add: bit_simps)
  have q: "link_2orb ! ((1 * 2 + 1) * 4 + 0) = 0" "link_2orb ! ((1 * 2 + 1) * 4 + 1) = 1"
    "link_2orb ! ((1 * 2 + 1) * 4 + 2) = 0" "link_2orb ! ((1 * 2 + 1) * 4 + 3) = - 1"
    by (simp_all add: link_2orb_def)
  note t = compress_link_groups_records [OF l k k, of link_2orb 2]
  from t have "length (compress_link (malloc 4) link_2orb 2 2 2) = length (malloc 4 :: LinkT list)"
    by (elim conjE)
  then have t0: "length (compress_link (malloc 4) link_2orb 2 2 2) = 4"
    by (simp add: malloc_def)
  from t have "EXTRACT_A (compress_link (malloc 4) link_2orb 2 2 2 ! (1 * 2 + 1))
      = ucast (link_2orb ! ((1 * 2 + 1) * 4 + 0))"
    by (elim conjE)
  then have t1: "EXTRACT_A (compress_link (malloc 4) link_2orb 2 2 2 ! (1 * 2 + 1)) = 0"
    by (simp only: q ucast_0)
  from t have "EXTRACT_I (compress_link (malloc 4) link_2orb 2 2 2 ! (1 * 2 + 1))
      = ucast (link_2orb ! ((1 * 2 + 1) * 4 + 1))"
    by (elim conjE)
  then have t2: "EXTRACT_I (compress_link (malloc 4) link_2orb 2 2 2 ! (1 * 2 + 1)) = 1"
    by (simp only: q ucast_1)
  from t have "EXTRACT_ADDR (compress_link (malloc 4) link_2orb 2 2 2 ! (1 * 2 + 1))
      = link_2orb ! ((1 * 2 + 1) * 4 + 2)"
    by (elim conjE)
  then have t3: "EXTRACT_ADDR (compress_link (malloc 4) link_2orb 2 2 2 ! (1 * 2 + 1)) = 0"
    by (simp only: q)
  from t have "EXTRACT_SIGN (compress_link (malloc 4) link_2orb 2 2 2 ! (1 * 2 + 1))
      = ucast (link_2orb ! ((1 * 2 + 1) * 4 + 3))"
    by (elim conjE)
  then have t4: "EXTRACT_SIGN (compress_link (malloc 4) link_2orb 2 2 2 ! (1 * 2 + 1)) = - 1"
    by (simp only: q m1)
  show ?thesis using l k t0 t1 t2 t3 t4 by (intro conjI)
qed

section \<open>Field widths of the compacted record\<close>

text \<open>
  Claim C10. The record stores \<open>a\<close> and \<open>i\<close> in unsigned 8-bit fields, the destination in
  an unsigned 32-bit field and the sign in a signed 8-bit field. Extracting the four
  fields returns the input quadruple exactly if and only if \<open>a\<close> and \<open>i\<close> lie in
  \<open>[0, 256)\<close>, the destination lies in \<open>[0, 2^32)\<close> and the sign lies in \<open>[-128, 128)\<close>;
  in every case the stored fields are the inputs reduced modulo \<open>2^8\<close> or \<open>2^32\<close>, and
  no error is raised (\<open>compress_link\<close> is total and has no error result).
\<close>

theorem compress_link_roundtrip_iff:
  assumes "nstr * nlink \<le> length clink" and "k < nstr" and "j < nlink"
    and "r = compress_link clink link_index norb nstr nlink ! (k * nlink + j)"
    and "qa = link_index ! ((k * nlink + j) * 4 + 0)"
    and "qi = link_index ! ((k * nlink + j) * 4 + 1)"
    and "qd = link_index ! ((k * nlink + j) * 4 + 2)"
    and "qs = link_index ! ((k * nlink + j) * 4 + 3)"
  shows "((uint (EXTRACT_A r) = sint qa \<and> uint (EXTRACT_I r) = sint qi \<and>
           uint (EXTRACT_ADDR r) = sint qd \<and> sint (EXTRACT_SIGN r) = sint qs)
          = (0 \<le> sint qa \<and> sint qa < 256 \<and> 0 \<le> sint qi \<and> sint qi < 256 \<and>
             0 \<le> sint qd \<and> sint qd < 2 ^ 32 \<and> - 128 \<le> sint qs \<and> sint qs < 128)) \<and>
         uint (EXTRACT_A r) = sint qa mod 2 ^ 8 \<and>
         uint (EXTRACT_I r) = sint qi mod 2 ^ 8 \<and>
         uint (EXTRACT_ADDR r) = sint qd mod 2 ^ 32 \<and>
         uint (EXTRACT_SIGN r) = sint qs mod 2 ^ 8"
proof -
  have r: "EXTRACT_A r = ucast qa" "EXTRACT_I r = ucast qi" "EXTRACT_ADDR r = qd"
    "EXTRACT_SIGN r = ucast qs"
    using compress_link_nth [OF assms(1-3), of link_index norb] assms(4-8)
    by (simp_all add: EXTRACT_A_def EXTRACT_I_def EXTRACT_ADDR_def EXTRACT_SIGN_def)
  have "(uint (EXTRACT_A r) = sint qa) = (0 \<le> sint qa \<and> sint qa < 256)"
    and "(uint (EXTRACT_I r) = sint qi) = (0 \<le> sint qi \<and> sint qi < 256)"
    and "(uint (EXTRACT_ADDR r) = sint qd) = (0 \<le> sint qd \<and> sint qd < 2 ^ 32)"
    and "(sint (EXTRACT_SIGN r) = sint qs) = (- 128 \<le> sint qs \<and> sint qs < 128)"
    unfolding r
    by (rule uint_ucast_roundtrip, rule uint_ucast_roundtrip, rule uint_32_roundtrip,
        rule sint_ucast_roundtrip)
  moreover have "uint (EXTRACT_A r) = sint qa mod 2 ^ 8"
    and "uint (EXTRACT_I r) = sint qi mod 2 ^ 8"
    and "uint (EXTRACT_ADDR r) = sint qd mod 2 ^ 32"
    and "uint (EXTRACT_SIGN r) = sint qs mod 2 ^ 8"
    unfolding r
    by (rule uint_ucast_32_8, rule uint_ucast_32_8, rule uint_32_sint, rule uint_ucast_32_8)
  ultimately show ?thesis by blast
qed

theorem compress_link_roundtrip_iff_witness:
  "1 * 1 \<le> length (malloc 1 :: LinkT list) \<and> (0::nat) < 1 \<and>
   uint (EXTRACT_A (compress_link (malloc 1) [300, 2, 5, - 1] 1 1 1 ! (0 * 1 + 0))) = 44 \<and>
   uint (EXTRACT_I (compress_link (malloc 1) [300, 2, 5, - 1] 1 1 1 ! (0 * 1 + 0))) = 2 \<and>
   uint (EXTRACT_ADDR (compress_link (malloc 1) [300, 2, 5, - 1] 1 1 1 ! (0 * 1 + 0))) = 5 \<and>
   uint (EXTRACT_SIGN (compress_link (malloc 1) [300, 2, 5, - 1] 1 1 1 ! (0 * 1 + 0))) = 255 \<and>
   sint (EXTRACT_SIGN (compress_link (malloc 1) [300, 2, 5, - 1] 1 1 1 ! (0 * 1 + 0))) = - 1 \<and>
   uint (EXTRACT_A (compress_link (malloc 1) [300, 2, 5, - 1] 1 1 1 ! (0 * 1 + 0)))
     \<noteq> sint (300 :: c_int)"
proof -
  have l: "1 * 1 \<le> length (malloc 1 :: LinkT list)" by (simp add: malloc_def)
  have k: "(0::nat) < 1" by simp
  note t = compress_link_roundtrip_iff [OF l k k refl refl refl refl refl, of "[300, 2, 5, - 1]" 1]
  have s: "sint (300 :: c_int) = 300" "sint (2 :: c_int) = 2" "sint (5 :: c_int) = 5"
    "sint (- 1 :: c_int) = - 1"
    by simp_all
  have u: "uint (EXTRACT_SIGN (compress_link (malloc 1) [300, 2, 5, - 1] 1 1 1 ! (0 * 1 + 0))) = 255
    \<Longrightarrow> sint (EXTRACT_SIGN (compress_link (malloc 1) [300, 2, 5, - 1] 1 1 1 ! (0 * 1 + 0))) = - 1"
    by (simp add: sint_uint)
  show ?thesis using t l u by (simp add: s)
qed

section \<open>Pruning of blocks with a negligible norm\<close>

text \<open>
  Claim C6 says that every kernel leaves \<open>rdm1\<close> and \<open>rdm2\<close> unchanged when \<open>csum\<close> does
  not exceed \<open>CSUMTHR = 1e-28\<close>. The ground-state kernels test \<open>csum > CSUMTHR\<close> before
  they accumulate, but the transition kernels leave through \<open>if (csum < CSUMTHR) goto end\<close>:
  at \<open>csum = CSUMTHR\<close> they accumulate. With \<open>bra = ket = [1e-14]\<close> and one identity
  record, \<open>FCItdm12kern_a\<close> finds \<open>csum = 1e-28\<close> twice and adds \<open>1e-28\<close> to both
  accumulators.
\<close>

theorem tdm_kernel_at_threshold_counterexample:
  "csum_a [1 / 10 ^ 14] 1 0 0 1 1 1 clink_one = CSUMTHR \<and>
   FCItdm12kern_a [0] [0] [1 / 10 ^ 14] [1 / 10 ^ 14] 1 0 0 1 1 1 1 1 clink_one clink_one
     = ([1 / 10 ^ 28], [1 / 10 ^ 28])"
  by code_simp

text \<open>
  Claim C6, amended. The ground-state kernels (ms0, spin0, a, b) return the accumulators
  unchanged when \<open>csum \<le> CSUMTHR\<close>. The transition kernels (ms0, a, b, ab) return
  them unchanged when the bra-side \<open>csum\<close> is strictly below \<open>CSUMTHR\<close>, whatever the ket
  is (the ket-side \<open>T1\<close> plays no part), and when the ket-side \<open>csum\<close> is strictly below
  \<open>CSUMTHR\<close>.
\<close>

theorem kernels_skip_below_threshold:
  "(csum_ms0 ket fillcnt stra_id strb_id norb na nlinka clink_indexa \<le> CSUMTHR \<longrightarrow>
      FCIrdm12kern_ms0 rdm1 rdm2 bra ket fillcnt stra_id strb_id norb na nb nlinka nlinkb
        clink_indexa clink_indexb = (rdm1, rdm2)) \<and>
   (csum_spin0 ket fillcnt stra_id strb_id norb na nlinka clink_indexa \<le> CSUMTHR \<longrightarrow>
      FCIrdm12kern_spin0 rdm1 rdm2 bra ket fillcnt stra_id strb_id norb na nb nlinka nlinkb
        clink_indexa clink_indexb = (rdm1, rdm2)) \<and>
   (csum_a ket fillcnt stra_id strb_id norb nb nlinka clink_indexa \<le> CSUMTHR \<longrightarrow>
      FCIrdm12kern_a rdm1 rdm2 bra ket fillcnt stra_id strb_id norb na nb nlinka nlinkb
        clink_indexa clink_indexb = (rdm1, rdm2)) \<and>
   (csum_b ket fillcnt stra_id strb_id norb nb nlinkb clink_indexb \<le> CSUMTHR \<longrightarrow>
      FCIrdm12kern_b rdm1 rdm2 bra ket fillcnt stra_id strb_id norb na nb nlinka nlinkb
        clink_indexa clink_indexb = (rdm1, rdm2)) \<and>
   (csum_ms0 bra fillcnt stra_id strb_id norb na nlinka clink_indexa < CSUMTHR \<longrightarrow>
      (\<forall>ket'. FCItdm12kern_ms0 rdm1 rdm2 bra ket' fillcnt stra_id strb_id norb na nb nlinka nlinkb
        clink_indexa clink_indexb = (rdm1, rdm2))) \<and>
   (csum_ms0 ket fillcnt stra_id strb_id norb na nlinka clink_indexa < CSUMTHR \<longrightarrow>
      FCItdm12kern_ms0 rdm1 rdm2 bra ket fillcnt stra_id strb_id norb na nb nlinka nlinkb
        clink_indexa clink_indexb = (rdm1, rdm2)) \<and>
   (csum_a bra fillcnt stra_id strb_id norb nb nlinka clink_indexa < CSUMTHR \<longrightarrow>
      (\<forall>ket'. FCItdm12kern_a rdm1 rdm2 bra ket' fillcnt stra_id strb_id norb na nb nlinka nlinkb
        clink_indexa clink_indexb = (rdm1, rdm2))) \<and>
   (csum_a ket fillcnt stra_id strb_id norb nb nlinka clink_indexa < CSUMTHR \<longrightarrow>
      FCItdm12kern_a rdm1 rdm2 bra ket fillcnt stra_id strb_id norb na nb nlinka nlinkb
        clink_indexa clink_indexb = (rdm1, rdm2)) \<and>
   (csum_b bra fillcnt stra_id strb_id norb nb nlinkb clink_indexb < CSUMTHR \<longrightarrow>
      (\<forall>ket'. FCItdm12kern_b rdm1 rdm2 bra ket' fillcnt stra_id strb_id norb na nb nlinka nlinkb
        clink_indexa clink_indexb = (rdm1, rdm2))) \<and>
   (csum_b ket fillcnt stra_id strb_id norb nb nlinkb clink_indexb < CSUMTHR \<longrightarrow>
      FCItdm12kern_b rdm1 rdm2 bra ket fillcnt stra_id strb_id norb na nb nlinka nlinkb
        clink_indexa clink_indexb = (rdm1, rdm2)) \<and>
   (csum_a bra fillcnt stra_id strb_id norb nb nlinka clink_indexa < CSUMTHR \<longrightarrow>
      (\<forall>ket'. FCItdm12kern_ab rdm1 rdm2 bra ket' fillcnt stra_id strb_id norb na nb nlinka nlinkb
        clink_indexa clink_indexb = (rdm1, rdm2))) \<and>
   (csum_b ket fillcnt stra_id strb_id norb nb nlinkb clink_indexb < CSUMTHR \<longrightarrow>
      FCItdm12kern_ab rdm1 rdm2 bra ket fillcnt stra_id strb_id norb na nb nlinka nlinkb
        clink_indexa clink_indexb = (rdm1, rdm2))"
proof (intro conjI impI allI)
  show "FCIrdm12kern_ms0 rdm1 rdm2 bra ket fillcnt stra_id strb_id norb na nb nlinka nlinkb
        clink_indexa clink_indexb = (rdm1, rdm2)"
    if "csum_ms0 ket fillcnt stra_id strb_id norb na nlinka clink_indexa \<le> CSUMTHR"
    using that unfolding FCIrdm12kern_ms0_def csum_ms0_def Let_def
    by (simp add: case_prod_beta)
  show "FCIrdm12kern_spin0 rdm1 rdm2 bra ket fillcnt stra_id strb_id norb na nb nlinka nlinkb
        clink_indexa clink_indexb = (rdm1, rdm2)"
    if "csum_spin0 ket fillcnt stra_id strb_id norb na nlinka clink_indexa \<le> CSUMTHR"
    using that unfolding FCIrdm12kern_spin0_def csum_spin0_def Let_def
    by (simp add: case_prod_beta)
  show "FCIrdm12kern_a rdm1 rdm2 bra ket fillcnt stra_id strb_id norb na nb nlinka nlinkb
        clink_indexa clink_indexb = (rdm1, rdm2)"
    if "csum_a ket fillcnt stra_id strb_id norb nb nlinka clink_indexa \<le> CSUMTHR"
    using that unfolding FCIrdm12kern_a_def csum_a_def Let_def
    by (simp add: case_prod_beta)
  show "FCIrdm12kern_b rdm1 rdm2 bra ket fillcnt stra_id strb_id norb na nb nlinka nlinkb
        clink_indexa clink_indexb = (rdm1, rdm2)"
    if "csum_b ket fillcnt stra_id strb_id norb nb nlinkb clink_indexb \<le> CSUMTHR"
    using that unfolding FCIrdm12kern_b_def csum_b_def Let_def
    by (simp add: case_prod_beta)
  show "FCItdm12kern_ms0 rdm1 rdm2 bra ket' fillcnt stra_id strb_id norb na nb nlinka nlinkb
        clink_indexa clink_indexb = (rdm1, rdm2)"
    if "csum_ms0 bra fillcnt stra_id strb_id norb na nlinka clink_indexa < CSUMTHR" for ket'
    using that unfolding FCItdm12kern_ms0_def csum_ms0_def Let_def
    by (simp add: case_prod_beta)
  show "FCItdm12kern_ms0 rdm1 rdm2 bra ket fillcnt stra_id strb_id norb na nb nlinka nlinkb
        clink_indexa clink_indexb = (rdm1, rdm2)"
    if "csum_ms0 ket fillcnt stra_id strb_id norb na nlinka clink_indexa < CSUMTHR"
    using that unfolding FCItdm12kern_ms0_def csum_ms0_def Let_def
    by (simp add: case_prod_beta)
  show "FCItdm12kern_a rdm1 rdm2 bra ket' fillcnt stra_id strb_id norb na nb nlinka nlinkb
        clink_indexa clink_indexb = (rdm1, rdm2)"
    if "csum_a bra fillcnt stra_id strb_id norb nb nlinka clink_indexa < CSUMTHR" for ket'
    using that unfolding FCItdm12kern_a_def csum_a_def Let_def
    by (simp add: case_prod_beta)
  show "FCItdm12kern_a rdm1 rdm2 bra ket fillcnt stra_id strb_id norb na nb nlinka nlinkb
        clink_indexa clink_indexb = (rdm1, rdm2)"
    if "csum_a ket fillcnt stra_id strb_id norb nb nlinka clink_indexa < CSUMTHR"
    using that unfolding FCItdm12kern_a_def csum_a_def Let_def
    by (simp add: case_prod_beta)
  show "FCItdm12kern_b rdm1 rdm2 bra ket' fillcnt stra_id strb_id norb na nb nlinka nlinkb
        clink_indexa clink_indexb = (rdm1, rdm2)"
    if "csum_b bra fillcnt stra_id strb_id norb nb nlinkb clink_indexb < CSUMTHR" for ket'
    using that unfolding FCItdm12kern_b_def csum_b_def Let_def
    by (simp add: case_prod_beta)
  show "FCItdm12kern_b rdm1 rdm2 bra ket fillcnt stra_id strb_id norb na nb nlinka nlinkb
        clink_indexa clink_indexb = (rdm1, rdm2)"
    if "csum_b ket fillcnt stra_id strb_id norb nb nlinkb clink_indexb < CSUMTHR"
    using that unfolding FCItdm12kern_b_def csum_b_def Let_def
    by (simp add: case_prod_beta)
  show "FCItdm12kern_ab rdm1 rdm2 bra ket' fillcnt stra_id strb_id norb na nb nlinka nlinkb
        clink_indexa clink_indexb = (rdm1, rdm2)"
    if "csum_a bra fillcnt stra_id strb_id norb nb nlinka clink_indexa < CSUMTHR" for ket'
    using that unfolding FCItdm12kern_ab_def csum_a_def Let_def
    by (simp add: case_prod_beta)
  show "FCItdm12kern_ab rdm1 rdm2 bra ket fillcnt stra_id strb_id norb na nb nlinka nlinkb
        clink_indexa clink_indexb = (rdm1, rdm2)"
    if "csum_b ket fillcnt stra_id strb_id norb nb nlinkb clink_indexb < CSUMTHR"
    using that unfolding FCItdm12kern_ab_def csum_b_def Let_def
    by (simp add: case_prod_beta)
qed

theorem kernels_skip_below_threshold_witness:
  "csum_ms0 [1 / 10 ^ 15] 1 0 0 1 1 1 clink_one \<le> CSUMTHR \<and>
   csum_spin0 [1 / 10 ^ 15] 1 0 0 1 1 1 clink_one \<le> CSUMTHR \<and>
   csum_a [1 / 10 ^ 15] 1 0 0 1 1 1 clink_one \<le> CSUMTHR \<and>
   csum_b [1 / 10 ^ 15] 1 0 0 1 1 1 clink_one \<le> CSUMTHR \<and>
   csum_ms0 [1 / 10 ^ 15] 1 0 0 1 1 1 clink_one < CSUMTHR \<and>
   csum_a [1 / 10 ^ 15] 1 0 0 1 1 1 clink_one < CSUMTHR \<and>
   csum_b [1 / 10 ^ 15] 1 0 0 1 1 1 clink_one < CSUMTHR \<and>
   FCIrdm12kern_ms0 [5] [7] [1 / 10 ^ 15] [1 / 10 ^ 15] 1 0 0 1 1 1 1 1 clink_one clink_one = ([5], [7]) \<and>
   FCIrdm12kern_spin0 [5] [7] [1 / 10 ^ 15] [1 / 10 ^ 15] 1 0 0 1 1 1 1 1 clink_one clink_one = ([5], [7]) \<and>
   FCIrdm12kern_a [5] [7] [1 / 10 ^ 15] [1 / 10 ^ 15] 1 0 0 1 1 1 1 1 clink_one clink_one = ([5], [7]) \<and>
   FCIrdm12kern_b [5] [7] [1 / 10 ^ 15] [1 / 10 ^ 15] 1 0 0 1 1 1 1 1 clink_one clink_one = ([5], [7]) \<and>
   FCItdm12kern_ms0 [5] [7] [1 / 10 ^ 15] [1] 1 0 0 1 1 1 1 1 clink_one clink_one = ([5], [7]) \<and>
   FCItdm12kern_ms0 [5] [7] [1 / 10 ^ 15] [1 / 10 ^ 15] 1 0 0 1 1 1 1 1 clink_one clink_one = ([5], [7]) \<and>
   FCItdm12kern_a [5] [7] [1 / 10 ^ 15] [1] 1 0 0 1 1 1 1 1 clink_one clink_one = ([5], [7]) \<and>
   FCItdm12kern_a [5] [7] [1 / 10 ^ 15] [1 / 10 ^ 15] 1 0 0 1 1 1 1 1 clink_one clink_one = ([5], [7]) \<and>
   FCItdm12kern_b [5] [7] [1 / 10 ^ 15] [1] 1 0 0 1 1 1 1 1 clink_one clink_one = ([5], [7]) \<and>
   FCItdm12kern_b [5] [7] [1 / 10 ^ 15] [1 / 10 ^ 15] 1 0 0 1 1 1 1 1 clink_one clink_one = ([5], [7]) \<and>
   FCItdm12kern_ab [5] [7] [1 / 10 ^ 15] [1] 1 0 0 1 1 1 1 1 clink_one clink_one = ([5], [7]) \<and>
   FCItdm12kern_ab [5] [7] [1 / 10 ^ 15] [1 / 10 ^ 15] 1 0 0 1 1 1 1 1 clink_one clink_one = ([5], [7])"
proof -
  have p: "csum_ms0 [1 / 10 ^ 15] 1 0 0 1 1 1 clink_one < CSUMTHR"
    "csum_spin0 [1 / 10 ^ 15] 1 0 0 1 1 1 clink_one < CSUMTHR"
    "csum_a [1 / 10 ^ 15] 1 0 0 1 1 1 clink_one < CSUMTHR"
    "csum_b [1 / 10 ^ 15] 1 0 0 1 1 1 clink_one < CSUMTHR"
    by code_simp+
  note t = kernels_skip_below_threshold [where ket = "[1 / 10 ^ 15]" and bra = "[1 / 10 ^ 15]"
      and fillcnt = 1 and stra_id = 0 and strb_id = 0 and norb = 1 and na = 1 and nb = 1
      and nlinka = 1 and nlinkb = 1 and clink_indexa = clink_one and clink_indexb = clink_one
      and ?rdm1.0 = "[5]" and ?rdm2.0 = "[7]"]
  show ?thesis using t p by (simp add: less_imp_le)
qed

section \<open>The spin-restricted kernel\<close>

text \<open>
  Claim C5. \<open>FCIrdm12kern_spin0\<close> works on the lower triangle of the \<open>(stra, strb)\<close> pair
  space only. A call with \<open>stra_id < strb_id\<close> returns the accumulators unchanged. A call
  with \<open>stra_id \<ge> strb_id\<close> whose \<open>csum\<close> passes the threshold processes \<open>fill1\<close> columns,
  all with \<open>strb \<le> stra_id\<close>; it adds the rank-1 and the rank-k contribution with the
  scale factor 2, and in the rank-k contribution the \<open>T1\<close> column whose \<open>strb\<close> equals
  \<open>stra_id\<close> is weighted by \<open>SQRT2\<close>, a constant within \<open>1e-18\<close> of a square root of 2
  (\<open>buf\<close> is the \<open>T1\<close> intermediate that \<open>spin0_t1\<close> builds).
\<close>

theorem spin0_kernel_lower_triangle:
  assumes "length rdm1 = norb * norb" and "length rdm2 = norb * norb * (norb * norb)"
    and "stra_id < na"
    and "spin0_t1 ket fillcnt stra_id strb_id norb na nlinka clink_indexa
           = ((fill0, fill1), buf, csum)"
    and "FCIrdm12kern_spin0 rdm1 rdm2 bra ket fillcnt stra_id strb_id norb na nb nlinka nlinkb
           clink_indexa clink_indexb = (rdm1', rdm2')"
  shows "(stra_id < strb_id \<longrightarrow> rdm1' = rdm1 \<and> rdm2' = rdm2) \<and>
         (strb_id \<le> stra_id \<and> CSUMTHR < csum \<longrightarrow>
            fill1 = (if strb_id + fillcnt < stra_id then fillcnt else stra_id - strb_id + 1) \<and>
            strb_id + fill1 \<le> stra_id + 1 \<and>
            (\<forall>p<norb * norb.
               rdm1' ! p = rdm1 ! p
                 + 2 * (\<Sum>k\<leftarrow>[0..<fill1]. buf ! (k * (norb * norb) + p)
                                           * ket ! (stra_id * na + strb_id + k))) \<and>
            (\<forall>q<norb * norb. \<forall>p\<le>q.
               rdm2' ! (q * (norb * norb) + p) = rdm2 ! (q * (norb * norb) + p)
                 + 2 * (\<Sum>k\<leftarrow>[0..<fill1].
                          (buf ! (k * (norb * norb) + p) * (if strb_id + k = stra_id then SQRT2 else 1))
                        * (buf ! (k * (norb * norb) + q) * (if strb_id + k = stra_id then SQRT2 else 1))))) \<and>
         \<bar>SQRT2 * SQRT2 - 2\<bar> < 1 / 10 ^ 18"
proof -
  let ?nn = "norb * norb"
  have kern: "(rdm1', rdm2') =
      (if stra_id < strb_id then (rdm1, rdm2)
       else if CSUMTHR < csum
            then (dgemv_N ?nn fill1 2 buf ?nn (ptr_at ket (stra_id * na + strb_id)) 1 rdm1,
                  dsyrk_UN ?nn fill1 2 (spin0_scale ?nn fill0 fill1 buf) ?nn 1 rdm2 ?nn)
            else (rdm1, rdm2))"
    using assms(5) unfolding FCIrdm12kern_spin0_def Let_def assms(4)
    by (auto split: if_splits)
  have fill: "(fill0, fill1) = (if strb_id + fillcnt < stra_id then (fillcnt, fillcnt)
        else (stra_id - strb_id, stra_id - strb_id + 1))"
    using spin0_t1_fill [of ket fillcnt stra_id strb_id norb na nlinka clink_indexa] assms(4)
    by simp
  have len: "length buf = ?nn * na"
    using spin0_t1_length [of ket fillcnt stra_id strb_id norb na nlinka clink_indexa] assms(4)
    by simp
  have part1: "stra_id < strb_id \<longrightarrow> rdm1' = rdm1 \<and> rdm2' = rdm2"
    using kern by (auto split: if_splits)
  have part2: "fill1 = (if strb_id + fillcnt < stra_id then fillcnt else stra_id - strb_id + 1) \<and>
            strb_id + fill1 \<le> stra_id + 1 \<and>
            (\<forall>p<?nn.
               rdm1' ! p = rdm1 ! p
                 + 2 * (\<Sum>k\<leftarrow>[0..<fill1]. buf ! (k * ?nn + p)
                                           * ket ! (stra_id * na + strb_id + k))) \<and>
            (\<forall>q<?nn. \<forall>p\<le>q.
               rdm2' ! (q * ?nn + p) = rdm2 ! (q * ?nn + p)
                 + 2 * (\<Sum>k\<leftarrow>[0..<fill1].
                          (buf ! (k * ?nn + p) * (if strb_id + k = stra_id then SQRT2 else 1))
                        * (buf ! (k * ?nn + q) * (if strb_id + k = stra_id then SQRT2 else 1))))"
    if h: "strb_id \<le> stra_id" "CSUMTHR < csum"
  proof -
    have f1: "fill1 = (if strb_id + fillcnt < stra_id then fillcnt else stra_id - strb_id + 1)"
      using fill by (simp split: if_splits)
    have f0: "fill0 = (if strb_id + fillcnt < stra_id then fillcnt else stra_id - strb_id)"
      using fill by (simp split: if_splits)
    have f1le: "strb_id + fill1 \<le> stra_id + 1" using f1 h(1) by (simp split: if_splits)
    have f1na: "fill1 \<le> na" using f1le assms(3) by simp
    have r1: "rdm1' = dgemv_N ?nn fill1 2 buf ?nn (ptr_at ket (stra_id * na + strb_id)) 1 rdm1"
      and r2: "rdm2' = dsyrk_UN ?nn fill1 2 (spin0_scale ?nn fill0 fill1 buf) ?nn 1 rdm2 ?nn"
      using kern h by (auto split: if_splits)
    have sc: "spin0_scale ?nn fill0 fill1 buf ! (k * ?nn + p)
        = buf ! (k * ?nn + p) * (if strb_id + k = stra_id then SQRT2 else 1)"
      if "k < fill1" "p < ?nn" for k p
    proof -
      have "k * ?nn + p < na * ?nn"
        using that(1) f1na by (intro idx_bound that(2)) simp
      then have "k * ?nn + p < length buf" by (simp add: len mult.commute)
      moreover have "(fill0 \<le> k \<and> k < fill1) = (strb_id + k = stra_id)"
        using that(1) f0 f1 h(1) by (auto split: if_splits)
      ultimately show ?thesis
        using spin0_scale_nth [of k ?nn p buf fill0 fill1] that(2) by simp
    qed
    have a: "rdm1' ! p = rdm1 ! p
                 + 2 * (\<Sum>k\<leftarrow>[0..<fill1]. buf ! (k * ?nn + p)
                                           * ket ! (stra_id * na + strb_id + k))"
      if "p < ?nn" for p
      using that assms(1) by (simp add: r1 dgemv_N_nth ptr_get_def ptr_at_def)
    have b: "rdm2' ! (q * ?nn + p) = rdm2 ! (q * ?nn + p)
                 + 2 * (\<Sum>k\<leftarrow>[0..<fill1].
                          (buf ! (k * ?nn + p) * (if strb_id + k = stra_id then SQRT2 else 1))
                        * (buf ! (k * ?nn + q) * (if strb_id + k = stra_id then SQRT2 else 1)))"
      if "q < ?nn" "p \<le> q" for p q
    proof -
      have p: "p < ?nn" using that by simp
      have idx: "q * ?nn + p < length rdm2"
        using idx_bound [OF that(1) p] assms(2) by simp
      have s: "(\<Sum>l\<leftarrow>[0..<fill1]. spin0_scale ?nn fill0 fill1 buf ! (l * ?nn + p)
                     * spin0_scale ?nn fill0 fill1 buf ! (l * ?nn + q))
          = (\<Sum>k\<leftarrow>[0..<fill1].
                          (buf ! (k * ?nn + p) * (if strb_id + k = stra_id then SQRT2 else 1))
                        * (buf ! (k * ?nn + q) * (if strb_id + k = stra_id then SQRT2 else 1)))"
        by (rule arg_cong [where f = sum_list], rule map_cong) (simp_all add: sc p that(1))
      have d: "(q * ?nn + p) div ?nn = q" "(q * ?nn + p) mod ?nn = p"
        using idx_div [OF p, of q] idx_mod [OF p, of q] by simp_all
      show ?thesis
        unfolding r2 dsyrk_UN_nth [OF idx] d s using that by simp
    qed
    show ?thesis using f1 f1le a b by blast
  qed
  show ?thesis using part1 part2 SQRT2_close by blast
qed

theorem spin0_kernel_lower_triangle_witness:
  "length [0, 0, 0, 0 :: double] = 2 * 2 \<and>
   length (replicate 16 (0 :: double)) = 2 * 2 * (2 * 2) \<and> (1::nat) < 2 \<and>
   spin0_t1 [1, 2, 3, 4] 2 1 0 2 2 2 (compress_link (malloc 4) link_2orb 2 2 2)
     = ((1, 2), [3, - 4, - 1, 3,  0, 0, - 2, 4], 55) \<and>
   (0::nat) \<le> 1 \<and> CSUMTHR < 55 \<and>
   fst (FCIrdm12kern_spin0 [0, 0, 0, 0] (replicate 16 0) [] [1, 2, 3, 4] 2 1 0 2 2 2 2 2
         (compress_link (malloc 4) link_2orb 2 2 2) (compress_link (malloc 4) link_2orb 2 2 2)) ! 3
     = 50 \<and>
   snd (FCIrdm12kern_spin0 [0, 0, 0, 0] (replicate 16 0) [] [1, 2, 3, 4] 2 1 0 2 2 2 2 2
         (compress_link (malloc 4) link_2orb 2 2 2) (compress_link (malloc 4) link_2orb 2 2 2))
      ! (3 * (2 * 2) + 2)
     = 2 * (- 1 * 3 + (- 2 * SQRT2) * (4 * SQRT2))"
proof -
  let ?cl = "compress_link (malloc 4) link_2orb 2 2 2"
  let ?K = "FCIrdm12kern_spin0 [0, 0, 0, 0] (replicate 16 0) [] [1, 2, 3, 4] 2 1 0 2 2 2 2 2 ?cl ?cl"
  have l1: "length [0, 0, 0, 0 :: double] = 2 * 2" by simp
  have l2: "length (replicate 16 (0 :: double)) = 2 * 2 * (2 * 2)" by simp
  have k: "(1::nat) < 2" by simp
  have e4: "spin0_t1 [1, 2, 3, 4] 2 1 0 2 2 2 ?cl = ((1, 2), [3, - 4, - 1, 3,  0, 0, - 2, 4], 55)"
    by code_simp
  have e5: "?K = (fst ?K, snd ?K)" by simp
  have h: "(0::nat) \<le> 1 \<and> CSUMTHR < 55" by (simp add: CSUMTHR_def)
  note t = spin0_kernel_lower_triangle [OF l1 l2 k e4 e5]
  from t h have a: "\<forall>p<2 * 2. fst ?K ! p = [0, 0, 0, 0] ! p
          + 2 * (\<Sum>k\<leftarrow>[0..<2]. [3, - 4, - 1, 3,  0, 0, - 2, 4] ! (k * (2 * 2) + p)
                                    * [1, 2, 3, 4] ! (1 * 2 + 0 + k))"
    by blast
  have "fst ?K ! 3 = [0, 0, 0, 0] ! 3
          + 2 * (\<Sum>k\<leftarrow>[0..<2]. [3, - 4, - 1, 3,  0, 0, - 2, 4] ! (k * (2 * 2) + 3)
                                    * [1, 2, 3, 4] ! (1 * 2 + 0 + k))"
    using a [rule_format, of 3] by simp
  also have "\<dots> = 50" by code_simp
  finally have r1: "fst ?K ! 3 = 50" .
  from t h have b: "\<forall>q<2 * 2. \<forall>p\<le>q. snd ?K ! (q * (2 * 2) + p) = replicate 16 0 ! (q * (2 * 2) + p)
          + 2 * (\<Sum>k\<leftarrow>[0..<2].
                   ([3, - 4, - 1, 3,  0, 0, - 2, 4] ! (k * (2 * 2) + p) * (if 0 + k = 1 then SQRT2 else 1))
                 * ([3, - 4, - 1, 3,  0, 0, - 2, 4] ! (k * (2 * 2) + q) * (if 0 + k = 1 then SQRT2 else 1)))"
    by blast
  have "snd ?K ! (3 * (2 * 2) + 2) = replicate 16 0 ! (3 * (2 * 2) + 2)
          + 2 * (\<Sum>k\<leftarrow>[0..<2].
                   ([3, - 4, - 1, 3,  0, 0, - 2, 4] ! (k * (2 * 2) + 2) * (if 0 + k = 1 then SQRT2 else 1))
                 * ([3, - 4, - 1, 3,  0, 0, - 2, 4] ! (k * (2 * 2) + 3) * (if 0 + k = 1 then SQRT2 else 1)))"
    using b [rule_format, of 3 2] by simp
  also have "\<dots> = 2 * (- 1 * 3 + (- 2 * SQRT2) * (4 * SQRT2))"
    by (simp add: upt_rec [of 0] upt_rec [of 1] upt_rec [of "Suc 0"])
  finally have r2: "snd ?K ! (3 * (2 * 2) + 2) = 2 * (- 1 * 3 + (- 2 * SQRT2) * (4 * SQRT2))" .
  show ?thesis using l1 l2 k e4 h r1 r2 by (intro conjI) simp_all
qed

section \<open>The transition build with \<open>bra = ket\<close> against the ground-state build\<close>

text \<open>
  Claim C4 says that the ms=0 transition build with \<open>bra = ket\<close> returns exactly the
  \<open>rdm1\<close> and \<open>rdm2\<close> of the ground-state ms=0 build. Two things stand against it.
  First, a block whose \<open>csum\<close> equals \<open>CSUMTHR\<close> is skipped by the ground-state kernel
  (\<open>csum > CSUMTHR\<close>) and accumulated by the transition kernel (\<open>csum < CSUMTHR\<close> leaves):
  with the two-orbital table and \<open>ci = [1e-14, 0, 0, 0]\<close> the block of \<open>stra_id = 1\<close> has
  \<open>csum = 1e-28\<close>, and \<open>rdm2(1,0,1,0)\<close> is \<open>2e-28\<close> in one build and \<open>1e-28\<close> in the
  other. Second, the ground-state build symmetrizes \<open>rdm1\<close> and the transition build
  does not: with the single record \<open>(a = 1, i = 0, destination 0, sign +1)\<close>, which no
  record answers in the other direction, the transition \<open>rdm1\<close> is \<open>[[0,2],[0,0]]\<close> and
  the ground-state \<open>rdm1\<close> is zero.
\<close>

theorem trans_vs_ground_counterexample:
  "snd (FCItrans_rdm12_ms0 [1 / 10 ^ 14, 0, 0, 0] [1 / 10 ^ 14, 0, 0, 0] 2 2 2 link_2orb) ! 10
      = 2 / 10 ^ 28 \<and>
   snd (FCImake_rdm12_ms0 [1 / 10 ^ 14, 0, 0, 0] [1 / 10 ^ 14, 0, 0, 0] 2 2 2 link_2orb) ! 10
      = 1 / 10 ^ 28 \<and>
   fst (FCItrans_rdm12_ms0 [1] [1] 2 1 1 [1, 0, 0, 1]) = [0, 2, 0, 0] \<and>
   fst (FCImake_rdm12_ms0 [1] [1] 2 1 1 [1, 0, 0, 1]) = [0, 0, 0, 0]"
  by code_simp

text \<open>
  Claim C4, amended. When no kernel call of the run meets \<open>csum = CSUMTHR\<close> exactly, the
  transition build with \<open>bra = ket\<close> returns the same \<open>rdm2\<close> as the ground-state build
  on that ket, at every entry of both triangles, and the ground-state \<open>rdm1\<close> is the
  transition \<open>rdm1\<close> with its row-major lower triangle mirrored into the upper one:
  \<open>rdm1[i][j] = tdm1[max i j][min i j]\<close>. The two \<open>rdm1\<close> are therefore equal whenever the
  transition \<open>rdm1\<close> is symmetric.
\<close>

theorem trans_same_state_vs_ground:
  assumes "no_block_at_threshold ket norb na nlink link_index"
    and "FCItrans_rdm12_ms0 ket ket norb na nlink link_index = (tdm1, tdm2)"
    and "FCImake_rdm12_ms0 bra ket norb na nlink link_index = (rdm1, rdm2)"
  shows "rdm2 = tdm2 \<and> length rdm1 = norb * norb \<and> length tdm1 = norb * norb \<and>
         (\<forall>i<norb. \<forall>j<norb. rdm1 ! (i * norb + j) = tdm1 ! (max i j * norb + min i j)) \<and>
         ((\<forall>i<norb. \<forall>j<norb. tdm1 ! (i * norb + j) = tdm1 ! (j * norb + i)) \<longrightarrow> rdm1 = tdm1)"
proof -
  let ?nn = "norb * norb"
  let ?G = "FCIrdm12_drv FCIrdm12kern_ms0 ket ket norb na na nlink nlink link_index link_index 0"
  have R: "same_state_rel ?nn ?G (tdm1, tdm2)"
    using same_state_drv [OF assms(1)] assms(2) by (simp add: FCItrans_rdm12_ms0_def)
  have len: "length (fst ?G) = ?nn" "tdm1 = fst ?G" "length (snd ?G) = ?nn * ?nn"
      "length tdm2 = ?nn * ?nn"
    and low: "\<And>q p. q < ?nn \<Longrightarrow> p \<le> q \<Longrightarrow> snd ?G ! (q * ?nn + p) = tdm2 ! (q * ?nn + p)"
    and sym: "\<And>q p. q < ?nn \<Longrightarrow> p < ?nn \<Longrightarrow> tdm2 ! (q * ?nn + p) = tdm2 ! (p * ?nn + q)"
    using R by (simp_all add: same_state_rel_def)
  have r1: "rdm1 = symmetrize_loop norb (fst ?G)"
    and r2: "rdm2 = symmetrize_loop ?nn (snd ?G)"
    using drv_symm_eq [of 1 FCIrdm12kern_ms0 ket ket norb na na nlink nlink link_index link_index]
      assms(3) by (simp_all add: FCImake_rdm12_ms0_def)
  have a: "rdm1 ! (i * norb + j) = tdm1 ! (max i j * norb + min i j)" if "i < norb" "j < norb" for i j
    using that by (simp add: r1 len(2) symmetrize_loop_nth [OF len(1)])
  have b: "rdm2 ! (r * ?nn + c) = tdm2 ! (r * ?nn + c)" if "r < ?nn" "c < ?nn" for r c
  proof -
    have "rdm2 ! (r * ?nn + c) = snd ?G ! (max r c * ?nn + min r c)"
      using that by (simp add: r2 symmetrize_loop_nth [OF len(3)])
    also have "\<dots> = tdm2 ! (max r c * ?nn + min r c)"
      using that by (intro low) (simp_all add: max_def min_def)
    also have "\<dots> = tdm2 ! (r * ?nn + c)"
      using that sym [OF that] by (simp add: max_def min_def)
    finally show ?thesis .
  qed
  have "rdm2 = tdm2"
  proof (rule nth_equalityI)
    show "length rdm2 = length tdm2" by (simp add: r2 len)
  next
    fix idx assume "idx < length rdm2"
    then have i: "idx < ?nn * ?nn" by (simp add: r2 len)
    then have nn: "0 < ?nn" by (cases "?nn = 0") simp_all
    have "idx div ?nn < ?nn" using i by (simp add: less_mult_imp_div_less)
    moreover have "idx mod ?nn < ?nn" using nn by simp
    ultimately have "rdm2 ! (idx div ?nn * ?nn + idx mod ?nn) = tdm2 ! (idx div ?nn * ?nn + idx mod ?nn)"
      by (rule b)
    then show "rdm2 ! idx = tdm2 ! idx" by (simp only: div_mult_mod_eq)
  qed
  moreover have "rdm1 = tdm1"
    if sym1: "\<forall>i<norb. \<forall>j<norb. tdm1 ! (i * norb + j) = tdm1 ! (j * norb + i)"
  proof (rule nth_equalityI)
    show "length rdm1 = length tdm1" by (simp add: r1 len)
  next
    fix idx assume "idx < length rdm1"
    then have i: "idx < norb * norb" by (simp add: r1 len)
    then have n: "0 < norb" by (cases "norb = 0") simp_all
    have d: "idx div norb < norb" using i by (simp add: less_mult_imp_div_less)
    have m: "idx mod norb < norb" using n by simp
    have "rdm1 ! (idx div norb * norb + idx mod norb)
        = tdm1 ! (max (idx div norb) (idx mod norb) * norb + min (idx div norb) (idx mod norb))"
      using d m by (rule a)
    also have "\<dots> = tdm1 ! (idx div norb * norb + idx mod norb)"
      using sym1 d m by (simp add: max_def min_def)
    finally show "rdm1 ! idx = tdm1 ! idx" by (simp only: div_mult_mod_eq)
  qed
  ultimately show ?thesis using a len by (simp add: r1)
qed

theorem trans_same_state_vs_ground_witness:
  "no_block_at_threshold [1, 2, 3, 4] 2 2 2 link_2orb \<and>
   FCItrans_rdm12_ms0 [1, 2, 3, 4] [1, 2, 3, 4] 2 2 2 link_2orb
     = ([15, - 25, - 25, 45],
        [17, - 30, - 5, 13,  - 30, 57, 8, - 20,  - 5, 8, 27, - 45,  13, - 20, - 45, 77]) \<and>
   FCImake_rdm12_ms0 [] [1, 2, 3, 4] 2 2 2 link_2orb
     = ([15, - 25, - 25, 45],
        [17, - 30, - 5, 13,  - 30, 57, 8, - 20,  - 5, 8, 27, - 45,  13, - 20, - 45, 77]) \<and>
   snd (FCImake_rdm12_ms0 [] [1, 2, 3, 4] 2 2 2 link_2orb)
     = snd (FCItrans_rdm12_ms0 [1, 2, 3, 4] [1, 2, 3, 4] 2 2 2 link_2orb)"
proof -
  have n: "no_block_at_threshold [1, 2, 3, 4] 2 2 2 link_2orb" by code_simp
  have t: "FCItrans_rdm12_ms0 [1, 2, 3, 4] [1, 2, 3, 4] 2 2 2 link_2orb
     = ([15, - 25, - 25, 45],
        [17, - 30, - 5, 13,  - 30, 57, 8, - 20,  - 5, 8, 27, - 45,  13, - 20, - 45, 77])"
    by code_simp
  have g: "FCImake_rdm12_ms0 [] [1, 2, 3, 4] 2 2 2 link_2orb
     = (fst (FCImake_rdm12_ms0 [] [1, 2, 3, 4] 2 2 2 link_2orb),
        snd (FCImake_rdm12_ms0 [] [1, 2, 3, 4] 2 2 2 link_2orb))"
    by simp
  have g': "FCImake_rdm12_ms0 [] [1, 2, 3, 4] 2 2 2 link_2orb
     = ([15, - 25, - 25, 45],
        [17, - 30, - 5, 13,  - 30, 57, 8, - 20,  - 5, 8, 27, - 45,  13, - 20, - 45, 77])"
    by code_simp
  note r = trans_same_state_vs_ground [OF n t g]
  from r have "snd (FCImake_rdm12_ms0 [] [1, 2, 3, 4] 2 2 2 link_2orb)
     = [17, - 30, - 5, 13,  - 30, 57, 8, - 20,  - 5, 8, 27, - 45,  13, - 20, - 45, 77]"
    by (elim conjE)
  then have "snd (FCImake_rdm12_ms0 [] [1, 2, 3, 4] 2 2 2 link_2orb)
     = snd (FCItrans_rdm12_ms0 [1, 2, 3, 4] [1, 2, 3, 4] 2 2 2 link_2orb)"
    by (simp only: t snd_conv)
  then show ?thesis using n t g' by (intro conjI)
qed

section \<open>Trace of the ground-state single-channel 1-RDM\<close>

text \<open>
  Claim C7. For a ket of unit Euclidean norm and a valid link table of the spin channel
  with \<open>nelec\<close> electrons, the trace of the 1-RDM that \<open>FCImake_rdm1a\<close> (alpha channel,
  table \<open>link_indexa\<close>) or \<open>FCImake_rdm1b\<close> (beta channel, table \<open>link_indexb\<close>) returns is
  \<open>nelec\<close>. The equality is one of real arithmetic.
\<close>

theorem rdm1_trace_is_electron_count:
  assumes "length ciket = na * nb"
    and "(\<Sum>idx\<leftarrow>[0..<na * nb]. ciket ! idx * ciket ! idx) = 1"
  shows "(valid_links nelec norb na nlinka link_indexa \<longrightarrow>
            trace norb (FCImake_rdm1a cibra ciket norb na nb nlinka nlinkb link_indexa link_indexb)
              = of_nat nelec) \<and>
         (valid_links nelec norb nb nlinkb link_indexb \<longrightarrow>
            trace norb (FCImake_rdm1b cibra ciket norb na nb nlinka nlinkb link_indexa link_indexb)
              = of_nat nelec)"
  using rdm1a_trace [OF _ assms(2)] rdm1b_trace [OF _ assms(2)] by blast

theorem rdm1_trace_is_electron_count_witness:
  "length [3 / 5, 0, 0, 4 / 5 :: double] = 2 * 2 \<and>
   (\<Sum>idx\<leftarrow>[0..<2 * 2]. [3 / 5, 0, 0, 4 / 5 :: double] ! idx * [3 / 5, 0, 0, 4 / 5] ! idx) = 1 \<and>
   valid_links 1 2 2 2 link_2orb \<and>
   FCImake_rdm1a [] [3 / 5, 0, 0, 4 / 5] 2 2 2 2 2 link_2orb link_2orb = [9 / 25, 0, 0, 16 / 25] \<and>
   trace 2 (FCImake_rdm1a [] [3 / 5, 0, 0, 4 / 5] 2 2 2 2 2 link_2orb link_2orb) = of_nat 1 \<and>
   trace 2 (FCImake_rdm1b [] [3 / 5, 0, 0, 4 / 5] 2 2 2 2 2 link_2orb link_2orb) = of_nat 1"
proof -
  have l: "length [3 / 5, 0, 0, 4 / 5 :: double] = 2 * 2" by simp
  have u: "(\<Sum>idx\<leftarrow>[0..<2 * 2]. [3 / 5, 0, 0, 4 / 5 :: double] ! idx * [3 / 5, 0, 0, 4 / 5] ! idx) = 1"
    by code_simp
  have v: "valid_links 1 2 2 2 link_2orb" by code_simp
  have e: "FCImake_rdm1a [] [3 / 5, 0, 0, 4 / 5] 2 2 2 2 2 link_2orb link_2orb = [9 / 25, 0, 0, 16 / 25]"
    by code_simp
  note t = rdm1_trace_is_electron_count [OF l u, of 1 2 2 link_2orb "[]" 2 link_2orb]
  from t v have "trace 2 (FCImake_rdm1a [] [3 / 5, 0, 0, 4 / 5] 2 2 2 2 2 link_2orb link_2orb) = of_nat 1"
    and "trace 2 (FCImake_rdm1b [] [3 / 5, 0, 0, 4 / 5] 2 2 2 2 2 link_2orb link_2orb) = of_nat 1"
    by blast+
  then show ?thesis using l u v e by (intro conjI)
qed

end
